theory Spec2Isabelle
  imports Complex_Main "HOL-Library.Word" "HOL-Library.Extended_Nat" "HOL-Library.Log_Nat"
begin

unbundle bit_operations_syntax

section \<open>Data model\<close>

text \<open>
  A \<open>Uint8Array\<close> is a list of 8-bit words; the language allows it fewer than \<open>2^53\<close>
  elements. A BigInt is an \<open>int\<close>, without the limit that an engine puts on the size of
  a BigInt. An index into a buffer, such as the position that \<open>readVarint\<close> moves along,
  is a \<open>nat\<close>. The offsets that the program computes by adding to an index are Numbers
  holding a non-negative integer or \<open>Infinity\<close>; they are of type \<open>enat\<close>, and the
  additions that make them round as double-precision additions do.
\<close>

type_synonym byte = "8 word"
type_synonym code_unit = "16 word"
type_synonym js_string = "code_unit list"

text \<open>
  The errors the source throws. In the order of the constructors:
  \<open>Error('Encountered truncated varint.')\<close>,
  \<open>Error(`Unsupported wire type: ${wireType}`)\<close>,
  \<open>Error('Each BSSID must contain 12 hexadecimal characters.')\<close>,
  \<open>Error('At least one access point is required.')\<close>, and the class
  \<open>AppleServiceError(message, statusCode, details)\<close> with its two messages; the
  details of the first one hold the upstream status.
\<close>

datatype apple_message = NonSuccessStatus | UnexpectedPayload

datatype error =
    TruncatedVarint
  | UnsupportedWireType int
  | InvalidBssid
  | EmptyRequest
  | AppleServiceError apple_message nat "nat option"

text \<open>
  The two errors of the decoder, and the outcomes of a parser that is left normally or by
  one of them.
\<close>

fun is_decode_error :: "error \<Rightarrow> bool" where
  "is_decode_error TruncatedVarint = True"
| "is_decode_error (UnsupportedWireType w) = True"
| "is_decode_error e = False"

fun decode_outcome :: "error + 'a \<Rightarrow> bool" where
  "decode_outcome (Inl e) = is_decode_error e"
| "decode_outcome (Inr x) = True"

section \<open>Varint codec\<close>

text \<open>
  \<open>readVarint(buffer, offset)\<close>: the loop over \<open>position\<close>, with \<open>result\<close> and
  \<open>shift\<close> as BigInts. Falling out of the loop throws.
\<close>

function readVarint_loop :: "byte list \<Rightarrow> int \<Rightarrow> nat \<Rightarrow> nat \<Rightarrow> error + (int \<times> nat)" where
  "readVarint_loop buffer result shift position =
     (if position < length buffer then
        (let byte = buffer ! position;
             position' = position + 1;
             result' = result OR push_bit shift (uint (byte AND 0x7f))
         in if byte AND 0x80 = 0 then Inr (result', position')
            else readVarint_loop buffer result' (shift + 7) position')
      else Inl TruncatedVarint)"
  by pat_completeness auto
termination
  by (relation "measure (\<lambda>(buffer, result, shift, position). length buffer - position)") auto

declare readVarint_loop.simps [simp del]

definition readVarint :: "byte list \<Rightarrow> nat \<Rightarrow> error + (int \<times> nat)" where
  "readVarint buffer offset = readVarint_loop buffer 0 0 offset"

text \<open>
  \<open>encodeVarint(value)\<close>: \<open>n\<close> is the BigInt of the argument, \<open>bytes\<close> an array of
  Numbers. \<open>>>\<close> on a BigInt is the arithmetic shift.
\<close>

function encodeVarint_loop :: "int \<Rightarrow> int list \<Rightarrow> int list" where
  "encodeVarint_loop n bytes =
     (if n \<ge> 0x80 then encodeVarint_loop (drop_bit 7 n) (bytes @ [(n AND 0x7f) OR 0x80])
      else bytes @ [n])"
  by pat_completeness auto
termination
proof (relation "measure (\<lambda>(n, bytes). nat n)")
  show "wf (measure (\<lambda>(n, bytes). nat n))"
    by simp
next
  fix n :: int and bytes :: "int list"
  assume "128 \<le> n"
  then have "n div 128 < n"
    by simp
  then show "((drop_bit 7 n, bytes @ [n AND 127 OR 128]), n, bytes)
             \<in> measure (\<lambda>(n, bytes). nat n)"
    using \<open>128 \<le> n\<close> by (simp add: drop_bit_eq_div)
qed

declare encodeVarint_loop.simps [simp del]

definition encodeVarint :: "int \<Rightarrow> int list" where
  "encodeVarint v = encodeVarint_loop v []"

text \<open>\<open>Uint8Array.from\<close> on an array of integral Numbers keeps each one modulo 256.\<close>

definition Uint8Array_from :: "int list \<Rightarrow> byte list" where
  "Uint8Array_from xs = map word_of_int xs"

section \<open>Offsets\<close>

text \<open>
  \<open>round_double n\<close> is the Number that \<open>Number(b)\<close> gives for a BigInt \<open>b\<close> holding the
  non-negative integer \<open>n\<close>, and the Number that an addition gives when its exact result
  is \<open>n\<close>: the double nearest to \<open>n\<close>, the one with the even significand when two are
  equally near, and \<open>Infinity\<close> from \<open>2^1024 - 2^970\<close> on. Up to \<open>2^53\<close> every integer
  is a double; above, with \<open>floorlog 2 n\<close> the number of binary digits of \<open>n\<close>, the
  doubles around \<open>n\<close> are the multiples of \<open>2^e\<close> for \<open>e = floorlog 2 n - 53\<close>.
\<close>

definition round_double :: "nat \<Rightarrow> enat" where
  "round_double n =
     (if n < 2 ^ 53 then enat n
      else
        (let e = floorlog 2 n - 53;
             q = n div 2 ^ e;
             r = n mod 2 ^ e;
             m = (if 2 * r > 2 ^ e \<or> (2 * r = 2 ^ e \<and> odd q) then q + 1 else q)
         in if m * 2 ^ e \<ge> 2 ^ 1024 then \<infinity> else enat (m * 2 ^ e)))"

text \<open>
  \<open>a + b\<close> for an index \<open>a\<close> and a Number \<open>b\<close> that holds a non-negative integer or
  \<open>Infinity\<close>.
\<close>

definition offset_plus :: "nat \<Rightarrow> enat \<Rightarrow> enat" where
  "offset_plus a b = (case b of enat y \<Rightarrow> round_double (a + y) | \<infinity> \<Rightarrow> \<infinity>)"

section \<open>Wire format\<close>

text \<open>
  \<open>decodeInt64\<close> and \<open>skipField\<close>. The wire type is \<open>Number(tag & 0x07n)\<close>, an
  integer. The offset given to \<open>skipField\<close> is an index; the one it returns is a Number.
  \<open>Number(length)\<close> is taken of a varint that \<open>readVarint\<close> has read, which is not
  negative.
\<close>

definition decodeInt64 :: "byte list \<Rightarrow> nat \<Rightarrow> error + (int \<times> nat)" where
  "decodeInt64 buffer offset =
     (case readVarint buffer offset of
        Inl e \<Rightarrow> Inl e
      | Inr (v, nextOffset) \<Rightarrow>
          Inr (if v > 0x7fffffffffffffff then v - 0x10000000000000000 else v, nextOffset))"

definition skipField :: "byte list \<Rightarrow> nat \<Rightarrow> int \<Rightarrow> error + enat" where
  "skipField buffer offset wireType =
     (if wireType = 0 then
        (case readVarint buffer offset of
           Inl e \<Rightarrow> Inl e
         | Inr (v, nextOffset) \<Rightarrow> Inr (enat nextOffset))
      else if wireType = 1 then Inr (offset_plus offset (enat 8))
      else if wireType = 2 then
        (case readVarint buffer offset of
           Inl e \<Rightarrow> Inl e
         | Inr (len, nextOffset) \<Rightarrow> Inr (offset_plus nextOffset (round_double (nat len))))
      else if wireType = 5 then Inr (offset_plus offset (enat 4))
      else Inl (UnsupportedWireType wireType))"

text \<open>
  \<open>buffer.subarray(begin, end)\<close> for an index and a Number that holds a non-negative
  integer or \<open>Infinity\<close>: both are clamped to the length, and an end before the begin
  gives the empty array.
\<close>

definition subarray :: "byte list \<Rightarrow> nat \<Rightarrow> enat \<Rightarrow> byte list" where
  "subarray buffer begin end =
     take (the_enat (min end (enat (length buffer))) - min begin (length buffer))
          (drop (min begin (length buffer)) buffer)"

section \<open>Numbers\<close>

text \<open>
  A JavaScript Number is a finite value, NaN or one of the two infinities. A finite Number
  is modelled by the real it denotes. \<open>Number(b)\<close> of a BigInt rounds as the language
  does. The operations on the Numbers of coordinates, signals and weights follow the rules
  of the language for NaN and the infinities and are exact on finite values: the rounding
  of double-precision arithmetic on fractions, its overflow and the sign of zero are not
  modelled. So the average that \<open>summarizeSignals\<close> rounds to two digits can fall on the
  other side of a tie than the program's, and where the program's
  \<open>computeTriangulatedLocation\<close> gives a longitude of -180 the model gives 180.
\<close>

datatype number = Finite real | NaN | PosInfinity | NegInfinity

fun Number_isFinite :: "number \<Rightarrow> bool" where
  "Number_isFinite (Finite x) = True"
| "Number_isFinite v = False"

text \<open>The operators \<open>+\<close>, \<open>*\<close>, \<open>/\<close>, \<open><\<close> and \<open>===\<close> on Numbers.\<close>

fun num_add :: "number \<Rightarrow> number \<Rightarrow> number" where
  "num_add (Finite a) (Finite b) = Finite (a + b)"
| "num_add NaN v = NaN"
| "num_add v NaN = NaN"
| "num_add PosInfinity NegInfinity = NaN"
| "num_add NegInfinity PosInfinity = NaN"
| "num_add PosInfinity v = PosInfinity"
| "num_add v PosInfinity = PosInfinity"
| "num_add NegInfinity v = NegInfinity"
| "num_add v NegInfinity = NegInfinity"

definition signed_infinity :: "bool \<Rightarrow> number" where
  "signed_infinity positive = (if positive then PosInfinity else NegInfinity)"

text \<open>\<open>Number(b)\<close> of a BigInt: the double nearest to it.\<close>

definition Number_of_BigInt :: "int \<Rightarrow> number" where
  "Number_of_BigInt b =
     (case round_double (nat \<bar>b\<bar>) of
        enat m \<Rightarrow> Finite (if b < 0 then - real m else real m)
      | \<infinity> \<Rightarrow> signed_infinity (b > 0))"

fun num_mul :: "number \<Rightarrow> number \<Rightarrow> number" where
  "num_mul (Finite a) (Finite b) = Finite (a * b)"
| "num_mul NaN v = NaN"
| "num_mul v NaN = NaN"
| "num_mul (Finite a) PosInfinity = (if a = 0 then NaN else signed_infinity (a > 0))"
| "num_mul (Finite a) NegInfinity = (if a = 0 then NaN else signed_infinity (a < 0))"
| "num_mul PosInfinity (Finite b) = (if b = 0 then NaN else signed_infinity (b > 0))"
| "num_mul NegInfinity (Finite b) = (if b = 0 then NaN else signed_infinity (b < 0))"
| "num_mul PosInfinity PosInfinity = PosInfinity"
| "num_mul PosInfinity NegInfinity = NegInfinity"
| "num_mul NegInfinity PosInfinity = NegInfinity"
| "num_mul NegInfinity NegInfinity = PosInfinity"

fun num_div :: "number \<Rightarrow> number \<Rightarrow> number" where
  "num_div (Finite a) (Finite b) =
     (if b = 0 then (if a = 0 then NaN else signed_infinity (a > 0)) else Finite (a / b))"
| "num_div NaN v = NaN"
| "num_div v NaN = NaN"
| "num_div (Finite a) v = Finite 0"
| "num_div PosInfinity (Finite b) = signed_infinity (b \<ge> 0)"
| "num_div NegInfinity (Finite b) = signed_infinity (b < 0)"
| "num_div v w = NaN"

fun num_less :: "number \<Rightarrow> number \<Rightarrow> bool" where
  "num_less (Finite a) (Finite b) = (a < b)"
| "num_less NaN v = False"
| "num_less v NaN = False"
| "num_less v NegInfinity = False"
| "num_less PosInfinity v = False"
| "num_less v w = True"

fun num_eq :: "number \<Rightarrow> number \<Rightarrow> bool" where
  "num_eq NaN v = False"
| "num_eq v NaN = False"
| "num_eq v w = (v = w)"

definition num_le :: "number \<Rightarrow> number \<Rightarrow> bool" where
  "num_le v w = (num_less v w \<or> num_eq v w)"

text \<open>The functions of \<open>Math\<close> that the source calls.\<close>

definition Math_min :: "number \<Rightarrow> number \<Rightarrow> number" where
  "Math_min v w = (if v = NaN \<or> w = NaN then NaN else if num_less w v then w else v)"

definition Math_max :: "number \<Rightarrow> number \<Rightarrow> number" where
  "Math_max v w = (if v = NaN \<or> w = NaN then NaN else if num_less v w then w else v)"

text \<open>\<open>Math.pow(10, e)\<close>.\<close>

fun Math_pow_10 :: "number \<Rightarrow> number" where
  "Math_pow_10 (Finite e) = Finite (10 powr e)"
| "Math_pow_10 NaN = NaN"
| "Math_pow_10 PosInfinity = PosInfinity"
| "Math_pow_10 NegInfinity = Finite 0"

fun Math_cos :: "number \<Rightarrow> number" where
  "Math_cos (Finite x) = Finite (cos x)"
| "Math_cos v = NaN"

fun Math_sin :: "number \<Rightarrow> number" where
  "Math_sin (Finite x) = Finite (sin x)"
| "Math_sin v = NaN"

fun Math_sqrt :: "number \<Rightarrow> number" where
  "Math_sqrt (Finite x) = (if x < 0 then NaN else Finite (sqrt x))"
| "Math_sqrt PosInfinity = PosInfinity"
| "Math_sqrt v = NaN"

fun Math_atan2 :: "number \<Rightarrow> number \<Rightarrow> number" where
  "Math_atan2 (Finite y) (Finite x) =
     Finite (if x > 0 then arctan (y / x)
             else if x < 0 then (if y \<ge> 0 then arctan (y / x) + pi else arctan (y / x) - pi)
             else if y > 0 then pi / 2
             else if y < 0 then - pi / 2
             else 0)"
| "Math_atan2 NaN v = NaN"
| "Math_atan2 v NaN = NaN"
| "Math_atan2 (Finite y) PosInfinity = Finite 0"
| "Math_atan2 (Finite y) NegInfinity = Finite (if y \<ge> 0 then pi else - pi)"
| "Math_atan2 PosInfinity (Finite x) = Finite (pi / 2)"
| "Math_atan2 NegInfinity (Finite x) = Finite (- pi / 2)"
| "Math_atan2 PosInfinity PosInfinity = Finite (pi / 4)"
| "Math_atan2 PosInfinity NegInfinity = Finite (3 * pi / 4)"
| "Math_atan2 NegInfinity PosInfinity = Finite (- pi / 4)"
| "Math_atan2 NegInfinity NegInfinity = Finite (- 3 * pi / 4)"

text \<open>
  \<open>Number(v.toFixed(digits))\<close>: the nearest multiple of \<open>10^-digits\<close>, a tie going away
  from zero; from \<open>10^21\<close> on, and for NaN and the infinities, \<open>toFixed\<close> prints the
  value itself.
\<close>

fun toFixed :: "nat \<Rightarrow> number \<Rightarrow> number" where
  "toFixed digits (Finite x) =
     (if \<bar>x\<bar> \<ge> 10 ^ 21 then Finite x
      else Finite (sgn x * of_int \<lfloor>\<bar>x\<bar> * 10 ^ digits + 1 / 2\<rfloor> / 10 ^ digits))"
| "toFixed digits v = v"

definition toRadians :: "number \<Rightarrow> number" where
  "toRadians degrees = num_div (num_mul degrees (Finite pi)) (Finite 180)"

definition toDegrees :: "number \<Rightarrow> number" where
  "toDegrees radians = num_div (num_mul radians (Finite 180)) (Finite pi)"

section \<open>BSSID canonicalization\<close>

text \<open>
  A string is its sequence of UTF-16 code units. \<open>input.replace(/[^a-f0-9]/gi, '')\<close>
  keeps exactly the code units of \<open>0-9\<close>, \<open>a-f\<close> and \<open>A-F\<close>: under the \<open>i\<close> flag
  without the \<open>u\<close> flag no code unit from 128 on is folded onto an ASCII letter.
  \<open>toLowerCase\<close> is only applied to what is kept, where it maps \<open>A-F\<close> to \<open>a-f\<close>; the
  model maps the ASCII capitals and leaves every other code unit as it is.
\<close>

definition isHexDigit :: "code_unit \<Rightarrow> bool" where
  "isHexDigit c = ((0x30 \<le> c \<and> c \<le> 0x39) \<or> (0x61 \<le> c \<and> c \<le> 0x66) \<or> (0x41 \<le> c \<and> c \<le> 0x46))"

definition toLowerCase_unit :: "code_unit \<Rightarrow> code_unit" where
  "toLowerCase_unit c = (if 0x41 \<le> c \<and> c \<le> 0x5a then c + 0x20 else c)"

definition toLowerCase :: "js_string \<Rightarrow> js_string" where
  "toLowerCase str = map toLowerCase_unit str"

text \<open>\<open>str.slice(start, end)\<close> for non-negative arguments, and \<open>parts.join(sep)\<close>.\<close>

definition slice :: "js_string \<Rightarrow> nat \<Rightarrow> nat \<Rightarrow> js_string" where
  "slice str start end =
     take (min end (length str) - min start (length str)) (drop (min start (length str)) str)"

fun join :: "js_string \<Rightarrow> js_string list \<Rightarrow> js_string" where
  "join sep [] = []"
| "join sep [part] = part"
| "join sep (part # parts) = part @ sep @ join sep parts"

function normalizeBssid_loop :: "js_string \<Rightarrow> nat \<Rightarrow> js_string list \<Rightarrow> js_string list" where
  "normalizeBssid_loop hex i parts =
     (if i < length hex then normalizeBssid_loop hex (i + 2) (parts @ [slice hex i (i + 2)])
      else parts)"
  by pat_completeness auto
termination
  by (relation "measure (\<lambda>(hex, i, parts). length hex - i)") auto

declare normalizeBssid_loop.simps [simp del]

definition normalizeBssid :: "js_string \<Rightarrow> error + js_string" where
  "normalizeBssid input =
     (let hex = toLowerCase (filter isHexDigit input)
      in if length hex \<noteq> 12 then Inl InvalidBssid
         else Inr (join [0x3a] (normalizeBssid_loop hex 0 [])))"

definition tryNormalizeBssid :: "js_string \<Rightarrow> js_string option" where
  "tryNormalizeBssid input = (case normalizeBssid input of Inl e \<Rightarrow> None | Inr s \<Rightarrow> Some s)"

text \<open>A string literal of ASCII characters as a JavaScript string.\<close>

definition str :: "string \<Rightarrow> js_string" where
  "str cs = map (\<lambda>c. of_nat (of_char c)) cs"

section \<open>Request encoding\<close>

text \<open>
  An access point as the worker holds it after validation: the BSSID and the signal,
  \<open>null\<close> when none was given.
\<close>

record accessPoint =
  point_bssid :: js_string
  point_signal :: "number option"

text \<open>
  \<open>TEXT_ENCODER\<close> and \<open>TEXT_DECODER\<close> are objects of the platform; their methods
  \<open>encode\<close> and \<open>decode\<close> are parameters of the functions that call them.

  \<open>encodeAppleWLocRequest\<close>: \<open>message\<close> and \<open>wifiDevice\<close> are arrays of Numbers, the
  bytes of the BSSID are spread into them as Numbers.
\<close>

fun encodeAppleWLocRequest_loop ::
  "(js_string \<Rightarrow> byte list) \<Rightarrow> accessPoint list \<Rightarrow> int list \<Rightarrow> int list" where
  "encodeAppleWLocRequest_loop encode [] message = message"
| "encodeAppleWLocRequest_loop encode (point # points) message =
     (let bssidBytes = encode (point_bssid point);
          wifiDevice = [0x0a] @ encodeVarint (int (length bssidBytes)) @ map uint bssidBytes
      in encodeAppleWLocRequest_loop encode points
           (message @ [0x12] @ encodeVarint (int (length wifiDevice)) @ wifiDevice))"

definition encodeAppleWLocRequest ::
  "(js_string \<Rightarrow> byte list) \<Rightarrow> accessPoint list \<Rightarrow> bool \<Rightarrow> error + byte list" where
  "encodeAppleWLocRequest encode accessPoints includeAll =
     (if length accessPoints = 0 then Inl EmptyRequest
      else
        (let message = encodeAppleWLocRequest_loop encode accessPoints [];
             message = message @ [0x18] @ encodeVarint 0;
             returnSingle = (if \<not> includeAll \<and> length accessPoints = 1 then 1 else 0);
             message = message @ [0x20] @ encodeVarint returnSingle
         in Inr (Uint8Array_from message)))"

text \<open>
  \<open>buildEnvelope\<close>: the segments are copied one after the other into the envelope;
  \<open>Uint8Array.from([message.length])\<close> keeps the length modulo 256.
\<close>

definition buildEnvelope :: "(js_string \<Rightarrow> byte list) \<Rightarrow> byte list \<Rightarrow> byte list" where
  "buildEnvelope encode message =
     concat
       [ [0x00, 0x01, 0x00, 0x05],
         encode (str ''en_US''),
         [0x00, 0x13],
         encode (str ''com.apple.locationd''),
         [0x00, 0x0a],
         encode (str ''8.1.12B411''),
         [0x00, 0x00, 0x00, 0x01, 0x00, 0x00, 0x00],
         Uint8Array_from [int (length message)],
         message ]"

section \<open>Response decoding\<close>

record location =
  latitudeE8 :: number
  longitudeE8 :: number

record device =
  bssid :: "js_string option"
  location :: "location option"

text \<open>
  The three parsers are \<open>while (offset < buffer.length)\<close> loops whose next offset comes
  out of the bytes they read. Each loop is a recursive function into \<open>option\<close>, where
  \<open>None\<close> stands for a loop that does not end; inside, \<open>Inl\<close> is a thrown error and
  \<open>Inr\<close> the state in which the loop is left. The offset of a loop is a Number; where
  the loop goes on it is below the length, hence an index. The field number and the wire
  type are \<open>tag >> 3n\<close> and \<open>tag & 0x07n\<close>; the source compares their Numbers with small
  constants only, which is the comparison of the integers.
\<close>

partial_function (option) parseLocation_loop ::
  "byte list \<Rightarrow> enat \<Rightarrow> int option \<Rightarrow> int option \<Rightarrow> (error + (int option \<times> int option)) option" where
  "parseLocation_loop buffer offset latitude longitude =
     (if offset < enat (length buffer) then
        (case readVarint buffer (the_enat offset) of
           Inl e \<Rightarrow> Some (Inl e)
         | Inr (tag, newOffset) \<Rightarrow>
             (let fieldNumber = drop_bit 3 tag;
                  wireType = tag AND 0x07
              in if wireType = 0 then
                   (case decodeInt64 buffer newOffset of
                      Inl e \<Rightarrow> Some (Inl e)
                    | Inr (v, nextOffset) \<Rightarrow>
                        if fieldNumber = 1 then
                          parseLocation_loop buffer (enat nextOffset) (Some v) longitude
                        else if fieldNumber = 2 then
                          parseLocation_loop buffer (enat nextOffset) latitude (Some v)
                        else parseLocation_loop buffer (enat nextOffset) latitude longitude)
                 else
                   (case skipField buffer newOffset wireType of
                      Inl e \<Rightarrow> Some (Inl e)
                    | Inr offset' \<Rightarrow> parseLocation_loop buffer offset' latitude longitude)))
      else Some (Inr (latitude, longitude)))"

declare parseLocation_loop.simps [code]

definition parseLocation :: "byte list \<Rightarrow> (error + location option) option" where
  "parseLocation buffer =
     (case parseLocation_loop buffer 0 None None of
        None \<Rightarrow> None
      | Some (Inl e) \<Rightarrow> Some (Inl e)
      | Some (Inr (latitude, longitude)) \<Rightarrow>
          (case latitude of
             None \<Rightarrow> Some (Inr None)
           | Some lat \<Rightarrow>
               (case longitude of
                  None \<Rightarrow> Some (Inr None)
                | Some lon \<Rightarrow>
                    Some (Inr (Some \<lparr> latitudeE8 = Number_of_BigInt lat,
                                       longitudeE8 = Number_of_BigInt lon \<rparr>)))))"

text \<open>
  The varint fields of a location submessage, for the statements about its coordinates:
  \<open>location_fields buffer offset fs\<close> says that the bytes from \<open>offset\<close> to the end are
  fields as the wire format lays them out, a field of wire type 0 holding one unsigned
  varint and a field of any other wire type being one that \<open>skipField\<close> skips, and that
  \<open>fs\<close> lists the number and the unsigned varint of each field of wire type 0, in the
  order of the bytes.
\<close>

inductive location_fields :: "byte list \<Rightarrow> enat \<Rightarrow> (int \<times> int) list \<Rightarrow> bool"
  for buffer :: "byte list" where
  fields_end:
    "\<not> offset < enat (length buffer) \<Longrightarrow> location_fields buffer offset []"
| fields_varint:
    "offset < length buffer \<Longrightarrow> readVarint buffer offset = Inr (tag, newOffset)
     \<Longrightarrow> tag AND 0x07 = 0 \<Longrightarrow> readVarint buffer newOffset = Inr (v, nextOffset)
     \<Longrightarrow> location_fields buffer (enat nextOffset) fs
     \<Longrightarrow> location_fields buffer (enat offset) ((drop_bit 3 tag, v) # fs)"
| fields_skipped:
    "offset < length buffer \<Longrightarrow> readVarint buffer offset = Inr (tag, newOffset)
     \<Longrightarrow> tag AND 0x07 \<noteq> 0 \<Longrightarrow> skipField buffer newOffset (tag AND 0x07) = Inr offset'
     \<Longrightarrow> location_fields buffer offset' fs
     \<Longrightarrow> location_fields buffer (enat offset) fs"

text \<open>
  The unsigned varint of the last field numbered \<open>f\<close> in such a list, if there is one.
\<close>

definition last_field :: "(int \<times> int) list \<Rightarrow> int \<Rightarrow> int option" where
  "last_field fs f = map_of (rev fs) f"

partial_function (option) parseWifiDevice_loop ::
  "(byte list \<Rightarrow> js_string) \<Rightarrow> byte list \<Rightarrow> enat \<Rightarrow> js_string option \<Rightarrow> location option
     \<Rightarrow> (error + (js_string option \<times> location option)) option" where
  "parseWifiDevice_loop decode buffer offset bssid_v location_v =
     (if offset < enat (length buffer) then
        (case readVarint buffer (the_enat offset) of
           Inl e \<Rightarrow> Some (Inl e)
         | Inr (tag, newOffset) \<Rightarrow>
             (let fieldNumber = drop_bit 3 tag;
                  wireType = tag AND 0x07
              in if fieldNumber = 1 \<and> wireType = 2 then
                   (case readVarint buffer newOffset of
                      Inl e \<Rightarrow> Some (Inl e)
                    | Inr (len, lengthOffset) \<Rightarrow>
                        (let end = offset_plus lengthOffset (round_double (nat len))
                         in parseWifiDevice_loop decode buffer end
                              (Some (decode (subarray buffer lengthOffset end))) location_v))
                 else if fieldNumber = 2 \<and> wireType = 2 then
                   (case readVarint buffer newOffset of
                      Inl e \<Rightarrow> Some (Inl e)
                    | Inr (len, lengthOffset) \<Rightarrow>
                        (let end = offset_plus lengthOffset (round_double (nat len))
                         in case parseLocation (subarray buffer lengthOffset end) of
                              None \<Rightarrow> None
                            | Some (Inl e) \<Rightarrow> Some (Inl e)
                            | Some (Inr loc) \<Rightarrow>
                                parseWifiDevice_loop decode buffer end bssid_v loc))
                 else
                   (case skipField buffer newOffset wireType of
                      Inl e \<Rightarrow> Some (Inl e)
                    | Inr offset' \<Rightarrow>
                        parseWifiDevice_loop decode buffer offset' bssid_v location_v)))
      else Some (Inr (bssid_v, location_v)))"

declare parseWifiDevice_loop.simps [code]

definition parseWifiDevice :: "(byte list \<Rightarrow> js_string) \<Rightarrow> byte list \<Rightarrow> (error + device) option" where
  "parseWifiDevice decode buffer =
     (case parseWifiDevice_loop decode buffer 0 None None of
        None \<Rightarrow> None
      | Some (Inl e) \<Rightarrow> Some (Inl e)
      | Some (Inr (b, l)) \<Rightarrow> Some (Inr \<lparr> bssid = b, location = l \<rparr>))"

partial_function (option) parseAppleWLoc_loop ::
  "(byte list \<Rightarrow> js_string) \<Rightarrow> byte list \<Rightarrow> enat \<Rightarrow> device list \<Rightarrow> (error + device list) option" where
  "parseAppleWLoc_loop decode buffer offset devices =
     (if offset < enat (length buffer) then
        (case readVarint buffer (the_enat offset) of
           Inl e \<Rightarrow> Some (Inl e)
         | Inr (tag, newOffset) \<Rightarrow>
             (let fieldNumber = drop_bit 3 tag;
                  wireType = tag AND 0x07
              in if fieldNumber = 2 \<and> wireType = 2 then
                   (case readVarint buffer newOffset of
                      Inl e \<Rightarrow> Some (Inl e)
                    | Inr (len, lengthOffset) \<Rightarrow>
                        (let end = offset_plus lengthOffset (round_double (nat len))
                         in case parseWifiDevice decode (subarray buffer lengthOffset end) of
                              None \<Rightarrow> None
                            | Some (Inl e) \<Rightarrow> Some (Inl e)
                            | Some (Inr d) \<Rightarrow>
                                parseAppleWLoc_loop decode buffer end (devices @ [d])))
                 else
                   (case skipField buffer newOffset wireType of
                      Inl e \<Rightarrow> Some (Inl e)
                    | Inr offset' \<Rightarrow> parseAppleWLoc_loop decode buffer offset' devices)))
      else Some (Inr devices))"

declare parseAppleWLoc_loop.simps [code]

definition parseAppleWLoc :: "(byte list \<Rightarrow> js_string) \<Rightarrow> byte list \<Rightarrow> (error + device list) option" where
  "parseAppleWLoc decode buffer = parseAppleWLoc_loop decode buffer 0 []"

text \<open>
  \<open>requestAppleDevices\<close>: \<open>fetch\<close> is the transport, a parameter, from the payload it is
  sent to the response it returns; a response is read through \<open>ok\<close>, \<open>status\<close> and the
  bytes of its body. \<open>body.subarray(10)\<close> ends at the length of the body.
\<close>

record response =
  ok :: bool
  status :: nat
  body :: "byte list"

definition requestAppleDevices ::
  "(js_string \<Rightarrow> byte list) \<Rightarrow> (byte list \<Rightarrow> js_string) \<Rightarrow> (byte list \<Rightarrow> response)
     \<Rightarrow> accessPoint list \<Rightarrow> bool \<Rightarrow> (error + device list) option" where
  "requestAppleDevices encode decode fetch accessPoints includeAll =
     (case encodeAppleWLocRequest encode accessPoints includeAll of
        Inl e \<Rightarrow> Some (Inl e)
      | Inr protobufRequest \<Rightarrow>
          (let payload = buildEnvelope encode protobufRequest;
               resp = fetch payload
           in if \<not> ok resp then
                Some (Inl (AppleServiceError NonSuccessStatus 502 (Some (status resp))))
              else if length (body resp) \<le> 10 then
                Some (Inl (AppleServiceError UnexpectedPayload 502 None))
              else parseAppleWLoc decode (subarray (body resp) 10 (enat (length (body resp))))))"

section \<open>Aggregation and triangulation\<close>

definition weightFromSignal :: "number \<Rightarrow> number" where
  "weightFromSignal signal_v =
     (if \<not> Number_isFinite signal_v then Finite 0
      else
        (let clamped = Math_max (Math_min signal_v (Finite (- 5))) (Finite (- 120))
         in Math_pow_10 (num_div clamped (Finite 10))))"

record summary =
  signal :: number
  signalCount :: nat
  signalMin :: number
  signalMax :: number

definition summarizeSignals :: "number list \<Rightarrow> summary option" where
  "summarizeSignals signals =
     (case signals of
        [] \<Rightarrow> None
      | first # rest \<Rightarrow>
          (let (min_v, max_v, total) =
                 fold (\<lambda>v (min_v, max_v, total). (Math_min min_v v, Math_max max_v v, num_add total v))
                      signals (first, first, Finite 0);
               average = num_div total (Finite (real (length signals)))
           in Some \<lparr> signal = toFixed 2 average, signalCount = length signals,
                     signalMin = min_v, signalMax = max_v \<rparr>))"

record candidate =
  latitude :: number
  longitude :: number
  weight :: number

record estimate =
  est_latitude :: number
  est_longitude :: number
  pointsUsed :: nat
  weightSum :: number

text \<open>
  \<open>computeTriangulatedLocation\<close>: the loop is a fold over the points with the state
  \<open>(totalWeight, x, y, z)\<close>; a point whose weight is not greater than 0 is passed over.
\<close>

definition computeTriangulatedLocation_step ::
  "candidate \<Rightarrow> number \<times> number \<times> number \<times> number \<Rightarrow> number \<times> number \<times> number \<times> number" where
  "computeTriangulatedLocation_step point state =
     (let (totalWeight, x, y, z) = state;
          w = weight point
      in if \<not> num_less (Finite 0) w then state
         else
           (let latRad = toRadians (latitude point);
                lonRad = toRadians (longitude point);
                cosLat = Math_cos latRad
            in (num_add totalWeight w,
                num_add x (num_mul (num_mul cosLat (Math_cos lonRad)) w),
                num_add y (num_mul (num_mul cosLat (Math_sin lonRad)) w),
                num_add z (num_mul (Math_sin latRad) w))))"

definition computeTriangulatedLocation :: "candidate list \<Rightarrow> estimate option" where
  "computeTriangulatedLocation points =
     (if length points < 2 then None
      else
        (let (totalWeight, x, y, z) =
               fold computeTriangulatedLocation_step points (Finite 0, Finite 0, Finite 0, Finite 0)
         in if num_le totalWeight (Finite 0) then None
            else
              (let x = num_div x totalWeight;
                   y = num_div y totalWeight;
                   z = num_div z totalWeight;
                   hyp = Math_sqrt (num_add (num_mul x x) (num_mul y y));
                   lat = Math_atan2 z hyp;
                   lon = Math_atan2 y x
               in Some \<lparr> est_latitude = toFixed 7 (toDegrees lat),
                         est_longitude = toFixed 7 (toDegrees lon),
                         pointsUsed = length points,
                         weightSum = totalWeight \<rparr>)))"

text \<open>
  \<open>formatResults\<close>. \<open>requestedMap\<close> maps a BSSID to the signals given for it;
  \<open>requestedKeys.has(b)\<close> is \<open>requestedMap b \<noteq> None\<close>. An entry of
  \<open>aggregatedResults\<close> holds the BSSID, the two coordinates and the fields of the signal
  summary when there is one; its \<open>mapUrl\<close>, a text made of the two coordinates, is not
  part of the model. The devices it is given may be \<open>null\<close>.
\<close>

fun requestedMap_of :: "accessPoint list \<Rightarrow> (js_string \<rightharpoonup> number list) \<Rightarrow> (js_string \<rightharpoonup> number list)" where
  "requestedMap_of [] requestedMap = requestedMap"
| "requestedMap_of (point # points) requestedMap =
     (let existing = (case requestedMap (point_bssid point) of None \<Rightarrow> [] | Some signals \<Rightarrow> signals);
          existing = (case point_signal point of
                        None \<Rightarrow> existing
                      | Some s \<Rightarrow> if Number_isFinite s then existing @ [s] else existing)
      in requestedMap_of points (requestedMap(point_bssid point \<mapsto> existing)))"

record entry =
  entry_bssid :: js_string
  entry_latitude :: number
  entry_longitude :: number
  entry_summary :: "summary option"

definition formatResults_device ::
  "(js_string \<rightharpoonup> number list) \<Rightarrow> device option \<Rightarrow> entry list \<times> candidate list
     \<Rightarrow> entry list \<times> candidate list" where
  "formatResults_device requestedMap dev state =
     (case dev of
        None \<Rightarrow> state
      | Some d \<Rightarrow>
          (case bssid d of
             None \<Rightarrow> state
           | Some b \<Rightarrow>
               if b = [] then state
               else
                 (case location d of
                    None \<Rightarrow> state
                  | Some loc \<Rightarrow>
                      (case tryNormalizeBssid b of
                         None \<Rightarrow> state
                       | Some normalized \<Rightarrow>
                           (let lat = num_div (latitudeE8 loc) (Finite (10 ^ 8));
                                lon = num_div (longitudeE8 loc) (Finite (10 ^ 8))
                            in if num_eq lat (Finite (- 180)) \<and> num_eq lon (Finite (- 180)) then state
                               else
                                 (let (aggregatedResults, triangulationCandidates) = state;
                                      signals = (case requestedMap normalized of
                                                   None \<Rightarrow> []
                                                 | Some signals \<Rightarrow> signals);
                                      aggregatedResults = aggregatedResults @
                                        [\<lparr> entry_bssid = normalized, entry_latitude = lat,
                                           entry_longitude = lon,
                                           entry_summary = summarizeSignals signals \<rparr>];
                                      w = fold (\<lambda>s total. num_add total (weightFromSignal s))
                                               signals (Finite 0)
                                  in if num_less (Finite 0) w then
                                       (aggregatedResults, triangulationCandidates @
                                          [\<lparr> latitude = lat, longitude = lon, weight = w \<rparr>])
                                     else (aggregatedResults, triangulationCandidates)))))))"

record formatted =
  query_accessPoints :: "accessPoint list"
  query_all :: bool
  found :: bool
  results :: "entry list"
  triangulated :: "estimate option"

definition formatResults :: "device option list \<Rightarrow> accessPoint list \<Rightarrow> bool \<Rightarrow> formatted" where
  "formatResults devices requestedAccessPoints includeAll =
     (let requestedMap = requestedMap_of requestedAccessPoints Map.empty;
          (aggregatedResults, triangulationCandidates) =
             fold (formatResults_device requestedMap) devices ([], []);
          res = (if includeAll then aggregatedResults
                 else filter (\<lambda>e. requestedMap (entry_bssid e) \<noteq> None) aggregatedResults)
      in \<lparr> query_accessPoints = requestedAccessPoints,
           query_all = includeAll,
           found = (length res > 0),
           results = res,
           triangulated = computeTriangulatedLocation triangulationCandidates \<rparr>)"

section \<open>Properties of the offsets\<close>

lemma the_enat_0: "the_enat 0 = 0"
  by (simp add: zero_enat_def)

lemma round_double_exact: "n \<le> 2 ^ 53 \<Longrightarrow> round_double n = enat n"
proof (cases "n < 2 ^ 53")
  case True
  then show ?thesis by (simp add: round_double_def)
next
  case False
  assume "n \<le> 2 ^ 53"
  with False have n: "n = 2 ^ 53" by simp
  show ?thesis
    unfolding n by (simp add: round_double_def compute_floorlog)
qed

lemma round_double_large:
  assumes "2 ^ 53 \<le> n"
  shows "enat (2 ^ 53) \<le> round_double n"
proof -
  let ?e = "floorlog 2 n - 53"
  let ?q = "n div 2 ^ ?e"
  from assms have pos: "0 < n"
    by (rule less_le_trans [rotated]) simp
  from floorlog_bounds [of n 2] pos have b: "2 ^ (floorlog 2 n - 1) \<le> n" "n < 2 ^ floorlog 2 n"
    by simp_all
  from assms b(2) have "(2::nat) ^ 53 < 2 ^ floorlog 2 n"
    by simp
  then have fl: "53 < floorlog 2 n"
    by (rule power_less_imp_less_exp [rotated]) simp
  then have split: "floorlog 2 n - 1 = 52 + ?e"
    by simp
  have "(2::nat) ^ 52 * 2 ^ ?e \<le> n"
    using b(1) unfolding split by (simp add: power_add)
  then have q: "2 ^ 52 \<le> ?q"
    by (simp add: less_eq_div_iff_mult_less_eq)
  from fl have e: "1 \<le> ?e" by simp
  then have pe: "(2::nat) ^ 1 \<le> 2 ^ ?e"
    by (rule power_increasing) simp
  have "(2::nat) ^ 53 = 2 ^ 52 * 2 ^ 1" by simp
  also have "\<dots> \<le> ?q * 2 ^ ?e"
    using q pe by (rule mult_mono) simp_all
  finally have low: "2 ^ 53 \<le> ?q * 2 ^ ?e" .
  then have up: "2 ^ 53 \<le> (?q + 1) * 2 ^ ?e"
    by (simp add: algebra_simps)
  from assms low up show ?thesis
    by (auto simp add: round_double_def Let_def)
qed

lemma offset_plus_exact: "a + y \<le> 2 ^ 53 \<Longrightarrow> offset_plus a (enat y) = enat (a + y)"
  by (simp add: offset_plus_def round_double_exact)

lemma offset_plus_large:
  assumes "2 ^ 53 \<le> a + y"
  shows "enat (2 ^ 53) \<le> offset_plus a (enat y)"
  using round_double_large [OF assms] by (simp add: offset_plus_def)

lemma offset_plus_ge:
  assumes "a \<le> 2 ^ 53"
  shows "enat a \<le> offset_plus a b"
proof (cases b)
  case (enat y)
  show ?thesis
  proof (cases "a + y \<le> 2 ^ 53")
    case True
    then show ?thesis
      by (simp add: enat offset_plus_exact)
  next
    case False
    then have "enat (2 ^ 53) \<le> offset_plus a (enat y)"
      by (intro offset_plus_large) simp
    with assms show ?thesis
      unfolding enat by (meson enat_ord_simps(1) order_trans)
  qed
next
  case infinity
  then show ?thesis
    by (simp add: offset_plus_def)
qed

lemma offset_plus_gt:
  assumes "a < 2 ^ 53" and "0 < y"
  shows "enat a < offset_plus a (enat y)"
proof (cases "a + y \<le> 2 ^ 53")
  case True
  with assms show ?thesis
    by (simp add: offset_plus_exact)
next
  case False
  then have "enat (2 ^ 53) \<le> offset_plus a (enat y)"
    by (intro offset_plus_large) simp
  with assms(1) show ?thesis
    by (meson enat_ord_simps(2) less_le_trans)
qed

lemma subarray_enat:
  "subarray buffer begin (enat e)
   = take (min e (length buffer) - min begin (length buffer))
       (drop (min begin (length buffer)) buffer)"
  by (simp add: subarray_def min_def)

lemma Number_of_BigInt_exact: "\<bar>b\<bar> \<le> 2 ^ 53 \<Longrightarrow> Number_of_BigInt b = Finite (of_int b)"
proof -
  assume "\<bar>b\<bar> \<le> 2 ^ 53"
  then have "nat \<bar>b\<bar> \<le> 2 ^ 53"
    by simp
  then have "round_double (nat \<bar>b\<bar>) = enat (nat \<bar>b\<bar>)"
    by (rule round_double_exact)
  then show ?thesis
    by (simp add: Number_of_BigInt_def)
qed


section \<open>Properties of the varint codec\<close>

lemma and_127_int: "(n::int) AND 127 = take_bit 7 n"
proof -
  have "(127::int) = mask 7" by (simp add: mask_eq_exp_minus_1)
  then show ?thesis by (simp add: take_bit_eq_mask)
qed

lemma and_127_byte: "(w::byte) AND 127 = take_bit 7 w"
proof -
  have "(127::byte) = mask 7" by (simp add: mask_eq_exp_minus_1)
  then show ?thesis by (simp add: take_bit_eq_mask)
qed

lemma bit_128_int: "bit (128::int) k \<longleftrightarrow> k = 7"
  using bit_exp_iff [where ?'a = int, of 7 k] by simp

lemma bit_128_byte: "bit (128::byte) k \<longleftrightarrow> k = 7"
proof -
  have "(128::byte) = word_of_int 128" by simp
  then have "bit (128::byte) k \<longleftrightarrow> k < 8 \<and> bit (128::int) k"
    by (simp only: bit_word_of_int_iff) simp
  then show ?thesis by (auto simp add: bit_128_int)
qed

lemma and_128_byte: "(w::byte) AND 128 = 0 \<longleftrightarrow> \<not> bit w 7"
proof
  assume "w AND 128 = 0"
  then have "\<not> bit (w AND 128) 7" by simp
  then show "\<not> bit w 7" by (simp only: bit_and_iff bit_128_byte) simp
next
  assume "\<not> bit w 7"
  then have "bit (w AND 128) k = bit (0::byte) k" for k
    using bit_128_byte [of k] by (auto simp add: bit_and_iff)
  then show "w AND 128 = 0" by (rule bit_eqI)
qed

lemma varint_group_low:
  "uint ((word_of_int ((n AND 0x7f) OR 0x80) :: byte) AND 0x7f) = n AND 0x7f"
  unfolding and_127_int and_127_byte
  by (rule bit_eqI) (auto simp add: bit_simps bit_128_int)

lemma varint_group_flag:
  "(word_of_int ((n AND 0x7f) OR 0x80) :: byte) AND 0x80 \<noteq> 0"
  unfolding and_128_byte and_127_int
  by (simp add: bit_simps bit_128_int)

lemma varint_last_flag:
  assumes "0 \<le> n" "n < 0x80"
  shows "(word_of_int n :: byte) AND 0x80 = 0"
proof -
  have "take_bit 7 n = n" using assms by (simp add: take_bit_int_eq_self)
  then have "\<not> bit n 7"
    by (metis bit_take_bit_iff less_irrefl)
  then show ?thesis unfolding and_128_byte by (simp add: bit_simps)
qed

lemma varint_last_low:
  assumes "0 \<le> n" "n < 0x80"
  shows "uint ((word_of_int n :: byte) AND 0x7f) = n"
proof -
  have t: "take_bit 7 n = n" using assms by (simp add: take_bit_int_eq_self)
  have "uint (take_bit 7 (word_of_int n :: byte)) = take_bit 7 n"
    by (rule bit_eqI) (auto simp add: bit_simps)
  then show ?thesis unfolding and_127_byte using t by simp
qed

lemma split_low7: "take_bit 7 n OR push_bit 7 (drop_bit 7 n) = (n::int)"
proof (rule bit_eqI)
  fix k
  show "bit (take_bit 7 n OR push_bit 7 (drop_bit 7 n)) k \<longleftrightarrow> bit n k"
    by (cases "k < 7") (simp_all add: bit_simps)
qed

lemma varint_join:
  "(acc OR push_bit shift (n AND 0x7f)) OR push_bit (shift + 7) (drop_bit 7 n) = acc OR push_bit shift (n::int)"
proof -
  have "push_bit shift (take_bit 7 n) OR push_bit (shift + 7) (drop_bit 7 n)
        = push_bit shift (take_bit 7 n OR push_bit 7 (drop_bit 7 n))"
    by (simp add: push_bit_add push_bit_or)
  then show ?thesis
    unfolding and_127_int by (simp add: split_low7 or.assoc)
qed

lemma encodeVarint_loop_acc:
  "encodeVarint_loop n bytes = bytes @ encodeVarint_loop n []"
proof (induction "nat n" arbitrary: n bytes rule: less_induct)
  case less
  show ?case
  proof (cases "n \<ge> 0x80")
    case True
    then have d: "nat (drop_bit 7 n) < nat n"
      by (simp add: drop_bit_eq_div)
    let ?b = "(n AND 0x7f) OR 0x80"
    have "encodeVarint_loop n bytes = encodeVarint_loop (drop_bit 7 n) (bytes @ [?b])"
      using True by (subst encodeVarint_loop.simps) simp
    also have "\<dots> = (bytes @ [?b]) @ encodeVarint_loop (drop_bit 7 n) []"
      using d by (rule less.hyps)
    also have "\<dots> = bytes @ encodeVarint_loop (drop_bit 7 n) ([] @ [?b])"
      using less [OF d, of "[?b]"] by simp
    also have "\<dots> = bytes @ encodeVarint_loop n []"
      using True by (subst (2) encodeVarint_loop.simps) simp
    finally show ?thesis .
  next
    case False
    then show ?thesis
      by (simp add: encodeVarint_loop.simps)
  qed
qed

lemma encodeVarint_small: "n < 0x80 \<Longrightarrow> encodeVarint n = [n]"
  by (simp add: encodeVarint_def encodeVarint_loop.simps)

lemma encodeVarint_large:
  "n \<ge> 0x80 \<Longrightarrow> encodeVarint n = ((n AND 0x7f) OR 0x80) # encodeVarint (drop_bit 7 n)"
  unfolding encodeVarint_def
  by (subst encodeVarint_loop.simps, subst encodeVarint_loop_acc) simp

lemma readVarint_loop_encodeVarint:
  assumes "0 \<le> n"
  shows "readVarint_loop (pre @ Uint8Array_from (encodeVarint n) @ suf) acc shift (length pre)
         = Inr (acc OR push_bit shift n, length pre + length (encodeVarint n))"
  using assms
proof (induction "nat n" arbitrary: n pre acc shift rule: less_induct)
  case less
  show ?case
  proof (cases "n \<ge> 0x80")
    case True
    let ?b = "word_of_int ((n AND 0x7f) OR 0x80) :: byte"
    let ?rest = "Uint8Array_from (encodeVarint (drop_bit 7 n))"
    have d: "nat (drop_bit 7 n) < nat n" and p: "0 \<le> drop_bit 7 n"
      using True by (simp_all add: drop_bit_eq_div)
    have buf: "pre @ Uint8Array_from (encodeVarint n) @ suf = (pre @ [?b]) @ ?rest @ suf"
      using True by (simp add: encodeVarint_large Uint8Array_from_def)
    have nth: "((pre @ [?b]) @ ?rest @ suf) ! length pre = ?b"
      by (simp add: nth_append)
    have "readVarint_loop ((pre @ [?b]) @ ?rest @ suf) acc shift (length pre)
          = readVarint_loop ((pre @ [?b]) @ ?rest @ suf)
              (acc OR push_bit shift (n AND 0x7f)) (shift + 7) (length (pre @ [?b]))"
      by (subst readVarint_loop.simps)
         (simp only: nth Let_def varint_group_low varint_group_flag, simp)
    also have "\<dots> = Inr ((acc OR push_bit shift (n AND 0x7f)) OR push_bit (shift + 7) (drop_bit 7 n),
                        length (pre @ [?b]) + length (encodeVarint (drop_bit 7 n)))"
      using d p by (rule less.hyps)
    finally have "readVarint_loop ((pre @ [?b]) @ ?rest @ suf) acc shift (length pre)
          = Inr (acc OR push_bit shift n, length (pre @ [?b]) + length (encodeVarint (drop_bit 7 n)))"
      unfolding varint_join .
    then show ?thesis
      unfolding buf using True by (simp add: encodeVarint_large)
  next
    case False
    then have e: "encodeVarint n = [n]"
      by (simp add: encodeVarint_small)
    have nth: "(pre @ [word_of_int n :: byte] @ suf) ! length pre = word_of_int n"
      by (simp add: nth_append)
    show ?thesis
      unfolding e Uint8Array_from_def list.map
      using False less.prems
      by (subst readVarint_loop.simps)
         (simp only: nth Let_def, simp add: varint_last_flag varint_last_low)
  qed
qed

text \<open>
  C1: for every non-negative integer \<open>x\<close> up to \<open>2^63 - 1\<close>, \<open>readVarint\<close> at offset 0
  of the bytes of \<open>encodeVarint x\<close> returns \<open>x\<close> and the number of bytes of the encoding.
\<close>

theorem varint_roundtrip:
  assumes "0 \<le> x" and "x \<le> 2 ^ 63 - 1"
  shows "readVarint (Uint8Array_from (encodeVarint x)) 0 = Inr (x, length (encodeVarint x))"
  using readVarint_loop_encodeVarint [OF assms(1), of "[]" "[]" 0 0]
  by (simp add: readVarint_def)

theorem varint_roundtrip_witness:
  "(0::int) \<le> 300 \<and> (300::int) \<le> 2 ^ 63 - 1 \<and>
   readVarint (Uint8Array_from (encodeVarint 300)) 0 = Inr (300, 2)"
proof -
  have l: "length (encodeVarint 300) = 2" by code_simp
  show ?thesis using varint_roundtrip [of 300] l by simp
qed

section \<open>Properties of the wire format\<close>

text \<open>
  C6: \<open>skipField\<close> returns the offset past the field as long as that offset is at most
  \<open>2^53\<close>. For wire type 0 it is the offset after one varint. For wire type 1 it is
  \<open>offset + 8\<close> and for wire type 5 it is \<open>offset + 4\<close>, when that is at most \<open>2^53\<close>. For
  wire type 2 it is the offset after the length varint plus that length, when that is at
  most \<open>2^53\<close>; in general it is the double-precision sum of the offset after the length
  varint and the length rounded to a Number, which is \<open>2^53\<close> or more, possibly
  \<open>Infinity\<close>, when the exact sum is above \<open>2^53\<close>. A varint that cannot be read is the
  error of \<open>readVarint\<close>, and every other wire type is the unsupported-wire-type error.
\<close>

theorem skipField_offsets:
  "(readVarint buffer offset = Inr (v, nextOffset) \<longrightarrow>
      skipField buffer offset 0 = Inr (enat nextOffset)
      \<and> skipField buffer offset 2 = Inr (offset_plus nextOffset (round_double (nat v)))
      \<and> (nextOffset + nat v \<le> 2 ^ 53 \<longrightarrow>
           skipField buffer offset 2 = Inr (enat (nextOffset + nat v)))
      \<and> (2 ^ 53 < nextOffset + nat v \<longrightarrow>
           (\<exists>p. skipField buffer offset 2 = Inr p \<and> enat (2 ^ 53) \<le> p)))
   \<and> (readVarint buffer offset = Inl e \<longrightarrow>
        skipField buffer offset 0 = Inl e \<and> skipField buffer offset 2 = Inl e)
   \<and> skipField buffer offset 1 = Inr (offset_plus offset (enat 8))
   \<and> (offset + 8 \<le> 2 ^ 53 \<longrightarrow> skipField buffer offset 1 = Inr (enat (offset + 8)))
   \<and> skipField buffer offset 5 = Inr (offset_plus offset (enat 4))
   \<and> (offset + 4 \<le> 2 ^ 53 \<longrightarrow> skipField buffer offset 5 = Inr (enat (offset + 4)))
   \<and> (wireType \<notin> {0, 1, 2, 5} \<longrightarrow>
        skipField buffer offset wireType = Inl (UnsupportedWireType wireType))"
proof -
  have exact: "offset_plus nextOffset (round_double (nat v)) = enat (nextOffset + nat v)"
    if "nextOffset + nat v \<le> 2 ^ 53"
  proof -
    from that have "nat v \<le> 2 ^ 53" by simp
    then have "round_double (nat v) = enat (nat v)"
      by (rule round_double_exact)
    with that show ?thesis
      by (simp add: offset_plus_exact)
  qed
  have large: "enat (2 ^ 53) \<le> offset_plus nextOffset (round_double (nat v))"
    if "2 ^ 53 < nextOffset + nat v"
  proof (cases "round_double (nat v)")
    case (enat y)
    have "2 ^ 53 \<le> nextOffset + y"
    proof (cases "nat v \<le> 2 ^ 53")
      case True
      then have "round_double (nat v) = enat (nat v)"
        by (rule round_double_exact)
      with enat that show ?thesis by simp
    next
      case False
      then have "enat (2 ^ 53) \<le> round_double (nat v)"
        by (intro round_double_large) simp
      with enat show ?thesis by simp
    qed
    then show ?thesis
      unfolding enat by (rule offset_plus_large)
  next
    case infinity
    then show ?thesis
      by (simp add: offset_plus_def)
  qed
  have 1: "readVarint buffer offset = Inr (v, nextOffset) \<longrightarrow>
      skipField buffer offset 0 = Inr (enat nextOffset)
      \<and> skipField buffer offset 2 = Inr (offset_plus nextOffset (round_double (nat v)))
      \<and> (nextOffset + nat v \<le> 2 ^ 53 \<longrightarrow>
           skipField buffer offset 2 = Inr (enat (nextOffset + nat v)))
      \<and> (2 ^ 53 < nextOffset + nat v \<longrightarrow>
           (\<exists>p. skipField buffer offset 2 = Inr p \<and> enat (2 ^ 53) \<le> p))"
    using exact large by (simp add: skipField_def)
  have 2: "readVarint buffer offset = Inl e \<longrightarrow>
        skipField buffer offset 0 = Inl e \<and> skipField buffer offset 2 = Inl e"
    by (simp add: skipField_def)
  have 3: "skipField buffer offset 1 = Inr (offset_plus offset (enat 8))"
    by (simp add: skipField_def)
  have 4: "offset + 8 \<le> 2 ^ 53 \<longrightarrow> skipField buffer offset 1 = Inr (enat (offset + 8))"
    by (simp add: skipField_def offset_plus_exact)
  have 5: "skipField buffer offset 5 = Inr (offset_plus offset (enat 4))"
    by (simp add: skipField_def)
  have 6: "offset + 4 \<le> 2 ^ 53 \<longrightarrow> skipField buffer offset 5 = Inr (enat (offset + 4))"
    by (simp add: skipField_def offset_plus_exact)
  have 7: "wireType \<notin> {0, 1, 2, 5} \<longrightarrow>
        skipField buffer offset wireType = Inl (UnsupportedWireType wireType)"
    by (simp add: skipField_def)
  from 1 2 3 4 5 6 7 show ?thesis by (intro conjI)
qed

theorem skipField_offsets_witness:
  "readVarint [0x96, 0x01, 0xff] 0 = Inr (150, 2)
   \<and> skipField [0x96, 0x01, 0xff] 0 0 = Inr (enat 2)
   \<and> skipField [0x96, 0x01, 0xff] 0 2 = Inr (enat 152)
   \<and> skipField [0x96, 0x01, 0xff] 0 1 = Inr (enat 8)
   \<and> skipField [0x96, 0x01, 0xff] 0 5 = Inr (enat 4)
   \<and> skipField [0x96, 0x01, 0xff] 0 3 = Inl (UnsupportedWireType 3)
   \<and> readVarint [0x80] 0 = Inl TruncatedVarint
   \<and> skipField [0x80] 0 2 = Inl TruncatedVarint
   \<and> readVarint [0x81, 0x80, 0x80, 0x80, 0x80, 0x80, 0x80, 0x10] 0 = Inr (9007199254740993, 8)
   \<and> (\<exists>p. skipField [0x81, 0x80, 0x80, 0x80, 0x80, 0x80, 0x80, 0x10] 0 2 = Inr p
          \<and> enat (2 ^ 53) \<le> p)
   \<and> readVarint (replicate 147 0x80 @ [0x01]) 0 = Inr (2 ^ 1029, 148)
   \<and> skipField (replicate 147 0x80 @ [0x01]) 0 2 = Inr \<infinity>"
proof -
  let ?long = "[0x81, 0x80, 0x80, 0x80, 0x80, 0x80, 0x80, 0x10] :: byte list"
  let ?huge = "replicate 147 0x80 @ [0x01] :: byte list"
  have r: "readVarint [0x96, 0x01, 0xff] 0 = Inr (150, 2)"
    by (simp add: readVarint_def readVarint_loop.simps)
  have c: "readVarint [0x80] 0 = Inl TruncatedVarint"
    by (simp add: readVarint_def readVarint_loop.simps)
  have l: "readVarint ?long 0 = Inr (9007199254740993, 8)"
    by (simp add: readVarint_def readVarint_loop.simps)
  have h: "readVarint ?huge 0 = Inr (2 ^ 1029, 148)"
    by (simp add: readVarint_def readVarint_loop.simps nth_append)
  note t = skipField_offsets [of "[0x96, 0x01, 0xff]" 0 150 2 TruncatedVarint 3]
  from t r have a: "skipField [0x96, 0x01, 0xff] 0 0 = Inr (enat 2)"
    "skipField [0x96, 0x01, 0xff] 0 2 = Inr (enat 152)"
    "skipField [0x96, 0x01, 0xff] 0 1 = Inr (enat 8)"
    "skipField [0x96, 0x01, 0xff] 0 5 = Inr (enat 4)"
    "skipField [0x96, 0x01, 0xff] 0 3 = Inl (UnsupportedWireType 3)"
    by (simp_all add: offset_plus_def round_double_def)
  from skipField_offsets [of "[0x80]" 0 _ _ TruncatedVarint]
  have "readVarint [0x80] 0 = Inl TruncatedVarint \<longrightarrow>
        skipField [0x80] 0 0 = Inl TruncatedVarint \<and> skipField [0x80] 0 2 = Inl TruncatedVarint"
    by (rule conjunct2 [THEN conjunct1])
  from this c
  have "skipField [0x80] 0 0 = Inl TruncatedVarint \<and> skipField [0x80] 0 2 = Inl TruncatedVarint"
    by (rule mp)
  then have d: "skipField [0x80] 0 2 = Inl TruncatedVarint"
    by (rule conjunct2)
  from skipField_offsets [of ?long 0 9007199254740993 8]
  have "readVarint ?long 0 = Inr (9007199254740993, 8) \<longrightarrow>
      skipField ?long 0 0 = Inr (enat 8)
      \<and> skipField ?long 0 2 = Inr (offset_plus 8 (round_double (nat 9007199254740993)))
      \<and> (8 + nat 9007199254740993 \<le> 2 ^ 53 \<longrightarrow>
           skipField ?long 0 2 = Inr (enat (8 + nat 9007199254740993)))
      \<and> (2 ^ 53 < 8 + nat 9007199254740993 \<longrightarrow>
           (\<exists>p. skipField ?long 0 2 = Inr p \<and> enat (2 ^ 53) \<le> p))"
    by (rule conjunct1)
  from this l have "skipField ?long 0 0 = Inr (enat 8)
      \<and> skipField ?long 0 2 = Inr (offset_plus 8 (round_double (nat 9007199254740993)))
      \<and> (8 + nat 9007199254740993 \<le> 2 ^ 53 \<longrightarrow>
           skipField ?long 0 2 = Inr (enat (8 + nat 9007199254740993)))
      \<and> (2 ^ 53 < 8 + nat 9007199254740993 \<longrightarrow>
           (\<exists>p. skipField ?long 0 2 = Inr p \<and> enat (2 ^ 53) \<le> p))"
    by (rule mp)
  then have "2 ^ 53 < 8 + nat 9007199254740993 \<longrightarrow>
           (\<exists>p. skipField ?long 0 2 = Inr p \<and> enat (2 ^ 53) \<le> p)"
    by (rule conjunct2 [THEN conjunct2, THEN conjunct2])
  moreover have "(2::nat) ^ 53 < 8 + nat 9007199254740993"
    by simp
  ultimately have b: "\<exists>p. skipField ?long 0 2 = Inr p \<and> enat (2 ^ 53) \<le> p"
    by (rule mp)
  from skipField_offsets [of ?huge 0 "2 ^ 1029" 148]
  have "readVarint ?huge 0 = Inr (2 ^ 1029, 148) \<longrightarrow>
      skipField ?huge 0 0 = Inr (enat 148)
      \<and> skipField ?huge 0 2 = Inr (offset_plus 148 (round_double (nat (2 ^ 1029))))
      \<and> (148 + nat (2 ^ 1029) \<le> 2 ^ 53 \<longrightarrow>
           skipField ?huge 0 2 = Inr (enat (148 + nat (2 ^ 1029))))
      \<and> (2 ^ 53 < 148 + nat (2 ^ 1029) \<longrightarrow>
           (\<exists>p. skipField ?huge 0 2 = Inr p \<and> enat (2 ^ 53) \<le> p))"
    by (rule conjunct1)
  from this h have "skipField ?huge 0 0 = Inr (enat 148)
      \<and> skipField ?huge 0 2 = Inr (offset_plus 148 (round_double (nat (2 ^ 1029))))
      \<and> (148 + nat (2 ^ 1029) \<le> 2 ^ 53 \<longrightarrow>
           skipField ?huge 0 2 = Inr (enat (148 + nat (2 ^ 1029))))
      \<and> (2 ^ 53 < 148 + nat (2 ^ 1029) \<longrightarrow>
           (\<exists>p. skipField ?huge 0 2 = Inr p \<and> enat (2 ^ 53) \<le> p))"
    by (rule mp)
  then have "skipField ?huge 0 2 = Inr (offset_plus 148 (round_double (nat (2 ^ 1029))))"
    by (rule conjunct2 [THEN conjunct1])
  moreover have "round_double (nat (2 ^ 1029)) = \<infinity>"
    by (simp add: round_double_def compute_floorlog)
  ultimately have i: "skipField ?huge 0 2 = Inr \<infinity>"
    by (simp add: offset_plus_def)
  from r a c d l b h i show ?thesis by (intro conjI)
qed

text \<open>
  The length of a field of wire type 2 is turned into a Number before it is added to the
  offset. After the eight bytes of the varint \<open>2^53 + 1\<close> the offset that \<open>skipField\<close>
  returns is \<open>2^53 + 8\<close>, one less than the offset past the field.
\<close>

theorem skipField_length_counterexample:
  "readVarint [0x81, 0x80, 0x80, 0x80, 0x80, 0x80, 0x80, 0x10] 0 = Inr (9007199254740993, 8)
   \<and> skipField [0x81, 0x80, 0x80, 0x80, 0x80, 0x80, 0x80, 0x10] 0 2 = Inr (enat 9007199254741000)
   \<and> skipField [0x81, 0x80, 0x80, 0x80, 0x80, 0x80, 0x80, 0x10] 0 2
       \<noteq> Inr (enat (8 + nat 9007199254740993))"
proof -
  have r: "readVarint [0x81, 0x80, 0x80, 0x80, 0x80, 0x80, 0x80, 0x10] 0 = Inr (9007199254740993, 8)"
    by (simp add: readVarint_def readVarint_loop.simps)
  have n: "round_double 9007199254740993 = enat 9007199254740992"
    by (simp add: round_double_def compute_floorlog)
  have o: "offset_plus 8 (enat 9007199254740992) = enat 9007199254741000"
    by (simp add: offset_plus_def round_double_def compute_floorlog)
  have s: "skipField [0x81, 0x80, 0x80, 0x80, 0x80, 0x80, 0x80, 0x10] 0 2 = Inr (enat 9007199254741000)"
    by (simp add: skipField_def r n o)
  have d: "enat 9007199254741000 \<noteq> enat (8 + nat 9007199254740993)"
    by simp
  from r s d show ?thesis by (simp only: simp_thms sum.inject)
qed

section \<open>Properties of the request and of the response handling\<close>

text \<open>
  C4: for a non-empty list of access points the message ends with the tag \<open>0x18\<close> and the
  value 0, then the tag \<open>0x20\<close> and the value 1 when exactly one access point was given and
  include-all is false, and the value 0 otherwise.
\<close>

theorem encodeAppleWLocRequest_trailer:
  assumes "accessPoints \<noteq> []"
  shows "encodeAppleWLocRequest encode accessPoints includeAll =
         Inr (Uint8Array_from (encodeAppleWLocRequest_loop encode accessPoints [])
              @ [0x18, 0x00, 0x20, if length accessPoints = 1 \<and> \<not> includeAll then 1 else 0])"
  using assms
  by (simp add: encodeAppleWLocRequest_def Uint8Array_from_def encodeVarint_def
      encodeVarint_loop.simps)

theorem encodeAppleWLocRequest_trailer_witness:
  "[\<lparr> point_bssid = str ''34:db:fd:43:e3:a1'', point_signal = None \<rparr>] \<noteq> []
   \<and> encodeAppleWLocRequest (\<lambda>s. map ucast s)
        [\<lparr> point_bssid = str ''34:db:fd:43:e3:a1'', point_signal = None \<rparr>] False
      = Inr [0x12, 0x13, 0x0a, 0x11, 0x33, 0x34, 0x3a, 0x64, 0x62, 0x3a, 0x66, 0x64, 0x3a, 0x34,
             0x33, 0x3a, 0x65, 0x33, 0x3a, 0x61, 0x31, 0x18, 0x00, 0x20, 0x01]
   \<and> encodeAppleWLocRequest (\<lambda>s. map ucast s)
        [\<lparr> point_bssid = str ''34:db:fd:43:e3:a1'', point_signal = None \<rparr>] True
      = Inr [0x12, 0x13, 0x0a, 0x11, 0x33, 0x34, 0x3a, 0x64, 0x62, 0x3a, 0x66, 0x64, 0x3a, 0x34,
             0x33, 0x3a, 0x65, 0x33, 0x3a, 0x61, 0x31, 0x18, 0x00, 0x20, 0x00]"
proof -
  let ?aps = "[\<lparr> point_bssid = str ''34:db:fd:43:e3:a1'', point_signal = None \<rparr>]"
  have n: "?aps \<noteq> []" by simp
  have l: "Uint8Array_from (encodeAppleWLocRequest_loop (\<lambda>s. map ucast s) ?aps [])
           = [0x12, 0x13, 0x0a, 0x11, 0x33, 0x34, 0x3a, 0x64, 0x62, 0x3a, 0x66, 0x64, 0x3a, 0x34,
              0x33, 0x3a, 0x65, 0x33, 0x3a, 0x61, 0x31]"
    by (simp add: Uint8Array_from_def encodeVarint_def encodeVarint_loop.simps str_def)
  show ?thesis
    using n l encodeAppleWLocRequest_trailer [OF n, of "\<lambda>s. map ucast s" False]
      encodeAppleWLocRequest_trailer [OF n, of "\<lambda>s. map ucast s" True]
    by simp
qed

text \<open>
  C5: when the body of the response has 10 bytes or fewer, the request fails with an
  \<open>AppleServiceError\<close> of status 502, whatever the bytes are; for a success response
  that is the error of the unexpected payload. When the body of a success response is
  longer, the result is that of \<open>parseAppleWLoc\<close> on the body without its first 10 bytes.
\<close>

theorem requestAppleDevices_body:
  assumes "encodeAppleWLocRequest encode accessPoints includeAll = Inr request"
    and "fetch (buildEnvelope encode request) = resp"
  shows "(length (body resp) \<le> 10 \<longrightarrow>
            (\<exists>message details.
               requestAppleDevices encode decode fetch accessPoints includeAll
                 = Some (Inl (AppleServiceError message 502 details))))
       \<and> (ok resp \<and> length (body resp) \<le> 10 \<longrightarrow>
            requestAppleDevices encode decode fetch accessPoints includeAll
              = Some (Inl (AppleServiceError UnexpectedPayload 502 None)))
       \<and> (ok resp \<and> length (body resp) > 10 \<longrightarrow>
            requestAppleDevices encode decode fetch accessPoints includeAll
              = parseAppleWLoc decode (drop 10 (body resp)))"
  using assms
  by (simp add: requestAppleDevices_def subarray_def Let_def)

theorem requestAppleDevices_body_witness:
  "requestAppleDevices (\<lambda>s. map ucast s) (\<lambda>b. map ucast b)
     (\<lambda>payload. \<lparr> ok = True, status = 200, body = [0, 0, 0, 0, 0, 0, 0, 0, 0, 0] \<rparr>)
     [\<lparr> point_bssid = str ''34:db:fd:43:e3:a1'', point_signal = None \<rparr>] False
     = Some (Inl (AppleServiceError UnexpectedPayload 502 None))
   \<and> requestAppleDevices (\<lambda>s. map ucast s) (\<lambda>b. map ucast b)
     (\<lambda>payload. \<lparr> ok = True, status = 200, body = [0, 0, 0, 0, 0, 0, 0, 0, 0, 0, 0x18, 0x00] \<rparr>)
     [\<lparr> point_bssid = str ''34:db:fd:43:e3:a1'', point_signal = None \<rparr>] False
     = Some (Inr [])"
proof -
  let ?aps = "[\<lparr> point_bssid = str ''34:db:fd:43:e3:a1'', point_signal = None \<rparr>]"
  let ?req = "[0x12, 0x13, 0x0a, 0x11, 0x33, 0x34, 0x3a, 0x64, 0x62, 0x3a, 0x66, 0x64, 0x3a, 0x34,
               0x33, 0x3a, 0x65, 0x33, 0x3a, 0x61, 0x31, 0x18, 0x00, 0x20, 0x01] :: byte list"
  let ?short = "\<lparr> ok = True, status = 200, body = [0, 0, 0, 0, 0, 0, 0, 0, 0, 0] \<rparr>"
  let ?long = "\<lparr> ok = True, status = 200, body = [0, 0, 0, 0, 0, 0, 0, 0, 0, 0, 0x18, 0x00] \<rparr>"
  have e: "encodeAppleWLocRequest (\<lambda>s. map ucast s) ?aps False = Inr ?req"
    by (simp add: encodeAppleWLocRequest_def Uint8Array_from_def encodeVarint_def
        encodeVarint_loop.simps str_def)
  have p: "parseAppleWLoc (\<lambda>b. map ucast b) [0x18, 0x00] = Some (Inr [])"
    by (simp add: parseAppleWLoc_def parseAppleWLoc_loop.simps readVarint_def
        readVarint_loop.simps skipField_def the_enat_0 zero_enat_def)
  have s: "ok ?short \<and> length (body ?short) \<le> 10" and l: "ok ?long \<and> length (body ?long) > 10"
    by simp_all
  from requestAppleDevices_body [OF e, of "\<lambda>payload. ?short" ?short "\<lambda>b. map ucast b"]
  have 1: "requestAppleDevices (\<lambda>s. map ucast s) (\<lambda>b. map ucast b) (\<lambda>payload. ?short) ?aps False
           = Some (Inl (AppleServiceError UnexpectedPayload 502 None))"
    using s by simp
  from requestAppleDevices_body [OF e, of "\<lambda>payload. ?long" ?long "\<lambda>b. map ucast b"]
  have 2: "requestAppleDevices (\<lambda>s. map ucast s) (\<lambda>b. map ucast b) (\<lambda>payload. ?long) ?aps False
           = Some (Inr [])"
    using l p by simp
  from 1 2 show ?thesis by (rule conjI)
qed

section \<open>Properties of the triangulation\<close>

text \<open>
  C8: \<open>weightFromSignal\<close> is \<open>10^(x/10)\<close> of the signal clamped into \<open>[-120, -5]\<close>; the
  weight of -52 is greater than the weight of -90, the weight of -3 is the weight of -5,
  and the weight of NaN and of the infinities is 0.
\<close>

theorem weightFromSignal_clamped:
  "num_less (weightFromSignal (Finite (- 90))) (weightFromSignal (Finite (- 52)))
   \<and> weightFromSignal (Finite (- 3)) = weightFromSignal (Finite (- 5))
   \<and> weightFromSignal NaN = Finite 0
   \<and> weightFromSignal PosInfinity = Finite 0
   \<and> weightFromSignal NegInfinity = Finite 0
   \<and> weightFromSignal (Finite x) = Finite (10 powr (max (min x (- 5)) (- 120) / 10))"
proof -
  have "(10::real) powr (- 90 / 10) < 10 powr (- 52 / 10)"
    by (rule powr_less_mono) simp_all
  then have 1: "num_less (weightFromSignal (Finite (- 90))) (weightFromSignal (Finite (- 52)))"
    by (simp add: weightFromSignal_def Math_min_def Math_max_def)
  have 2: "weightFromSignal (Finite (- 3)) = weightFromSignal (Finite (- 5))"
    by (simp add: weightFromSignal_def Math_min_def Math_max_def)
  have 3: "weightFromSignal NaN = Finite 0" "weightFromSignal PosInfinity = Finite 0"
    "weightFromSignal NegInfinity = Finite 0"
    by (simp_all add: weightFromSignal_def)
  have 4: "weightFromSignal (Finite x) = Finite (10 powr (max (min x (- 5)) (- 120) / 10))"
    by (simp add: weightFromSignal_def Math_min_def Math_max_def max_def min_def)
  from 1 2 3 4 show ?thesis by simp
qed

text \<open>
  C7: \<open>computeTriangulatedLocation\<close> returns no estimate for fewer than 2 points, and the
  \<open>pointsUsed\<close> of an estimate is the number of points given, those of weight 0 included.
\<close>

theorem computeTriangulatedLocation_pointsUsed:
  "(length points < 2 \<longrightarrow> computeTriangulatedLocation points = None)
   \<and> (computeTriangulatedLocation points = Some est \<longrightarrow> pointsUsed est = length points)"
  by (auto simp add: computeTriangulatedLocation_def Let_def split: if_splits prod.splits)

theorem computeTriangulatedLocation_pointsUsed_witness:
  "length [\<lparr> latitude = Finite 48, longitude = Finite 2, weight = Finite 1 \<rparr>] < 2
   \<and> computeTriangulatedLocation [\<lparr> latitude = Finite 48, longitude = Finite 2, weight = Finite 1 \<rparr>] = None
   \<and> computeTriangulatedLocation
        [\<lparr> latitude = Finite 0, longitude = Finite 0, weight = Finite 1 \<rparr>,
         \<lparr> latitude = Finite 0, longitude = Finite 0, weight = Finite 1 \<rparr>,
         \<lparr> latitude = Finite 0, longitude = Finite 0, weight = Finite 0 \<rparr>]
       = Some \<lparr> est_latitude = Finite 0, est_longitude = Finite 0, pointsUsed = 3, weightSum = Finite 2 \<rparr>
   \<and> pointsUsed \<lparr> est_latitude = Finite 0, est_longitude = Finite 0, pointsUsed = 3, weightSum = Finite 2 \<rparr>
       = length [\<lparr> latitude = Finite 0, longitude = Finite 0, weight = Finite 1 \<rparr>,
         \<lparr> latitude = Finite 0, longitude = Finite 0, weight = Finite 1 \<rparr>,
         \<lparr> latitude = Finite 0, longitude = Finite 0, weight = Finite 0 \<rparr>]"
proof -
  let ?one = "[\<lparr> latitude = Finite 48, longitude = Finite 2, weight = Finite 1 \<rparr>]"
  let ?three = "[\<lparr> latitude = Finite 0, longitude = Finite 0, weight = Finite 1 \<rparr>,
         \<lparr> latitude = Finite 0, longitude = Finite 0, weight = Finite 1 \<rparr>,
         \<lparr> latitude = Finite 0, longitude = Finite 0, weight = Finite 0 \<rparr>]"
  let ?est = "\<lparr> est_latitude = Finite 0, est_longitude = Finite 0, pointsUsed = 3, weightSum = Finite 2 \<rparr>"
  have l: "length ?one < 2" by simp
  have e: "computeTriangulatedLocation ?three = Some ?est"
    by (simp add: computeTriangulatedLocation_def computeTriangulatedLocation_step_def
        toRadians_def toDegrees_def num_le_def Let_def)
  from computeTriangulatedLocation_pointsUsed [of ?one]
  have a: "computeTriangulatedLocation ?one = None" using l by blast
  from computeTriangulatedLocation_pointsUsed [of ?three ?est]
  have b: "pointsUsed ?est = length ?three" using e by blast
  from l a e b show ?thesis by blast
qed

section \<open>Properties of the BSSID canonicalization\<close>

lemma toLowerCase_unit_idem: "toLowerCase_unit (toLowerCase_unit c) = toLowerCase_unit c"
  unfolding toLowerCase_unit_def by uint_arith

lemma isHexDigit_toLowerCase_unit:
  assumes "isHexDigit c"
  shows "isHexDigit (toLowerCase_unit c)"
proof (cases "0x41 \<le> c \<and> c \<le> 0x5a")
  case True
  then have r: "65 \<le> unat c" "unat c \<le> 90"
    by (simp_all add: word_le_nat_alt)
  then have u: "unat (c + 0x20) = unat c + 32"
    by (simp add: unat_word_ariths)
  from assms r have "unat c \<le> 70"
    by (auto simp add: isHexDigit_def word_le_nat_alt)
  with r u have "0x61 \<le> c + 0x20 \<and> c + 0x20 \<le> 0x66"
    by (simp add: word_le_nat_alt)
  with True show ?thesis
    by (simp add: isHexDigit_def toLowerCase_unit_def)
next
  case False
  then have "toLowerCase_unit c = c"
    unfolding toLowerCase_unit_def by (rule if_not_P)
  with assms show ?thesis
    by simp
qed

lemma colon_not_hex: "filter isHexDigit [0x3a] = []"
  by (simp add: isHexDigit_def)

lemma filter_join:
  "filter P sep = [] \<Longrightarrow> filter P (join sep parts) = filter P (concat parts)"
  by (induction sep parts rule: join.induct) simp_all

lemma slice_drop: "i < length hex \<Longrightarrow> slice hex i (i + 2) @ drop (i + 2) hex = drop i hex"
proof -
  assume i: "i < length hex"
  show ?thesis
  proof (cases "i + 2 \<le> length hex")
    case True
    then have "slice hex i (i + 2) = take 2 (drop i hex)"
      by (simp add: slice_def min_def)
    moreover have "drop (i + 2) hex = drop 2 (drop i hex)"
      by (simp add: add.commute)
    ultimately show ?thesis by (simp only: append_take_drop_id)
  next
    case False
    with i have l: "length hex = i + 1" by simp
    then have "slice hex i (i + 2) = drop i hex" and "drop (i + 2) hex = []"
      by (simp_all add: slice_def min_def)
    then show ?thesis by simp
  qed
qed

lemma concat_normalizeBssid_loop:
  "concat (normalizeBssid_loop hex i parts) = concat parts @ drop i hex"
proof (induction hex i parts rule: normalizeBssid_loop.induct)
  case (1 hex i parts)
  show ?case
  proof (cases "i < length hex")
    case True
    then show ?thesis
      using 1 slice_drop [OF True]
      by (subst normalizeBssid_loop.simps) simp
  next
    case False
    then show ?thesis
      by (subst normalizeBssid_loop.simps) simp
  qed
qed

lemma normalizeBssid_hex:
  assumes "normalizeBssid s = Inr t"
  shows "filter isHexDigit t = toLowerCase (filter isHexDigit s)"
proof -
  let ?hex = "toLowerCase (filter isHexDigit s)"
  from assms have t: "t = join [0x3a] (normalizeBssid_loop ?hex 0 [])"
    by (simp add: normalizeBssid_def Let_def split: if_splits)
  have "filter isHexDigit t = filter isHexDigit (concat (normalizeBssid_loop ?hex 0 []))"
    unfolding t by (rule filter_join) (rule colon_not_hex)
  also have "\<dots> = filter isHexDigit ?hex"
    by (simp add: concat_normalizeBssid_loop)
  also have "\<dots> = ?hex"
    by (simp add: toLowerCase_def isHexDigit_toLowerCase_unit)
  finally show ?thesis .
qed

lemma toLowerCase_idem: "toLowerCase (toLowerCase s) = toLowerCase s"
  by (simp add: toLowerCase_def toLowerCase_unit_idem)

text \<open>
  C9: canonicalization is idempotent: when \<open>normalizeBssid s\<close> succeeds with \<open>t\<close>, then
  \<open>normalizeBssid t\<close> succeeds with \<open>t\<close>; and each of \<open>34DBFD43E3A1\<close>,
  \<open>34-db-fd-43-e3-a1\<close> and \<open>34:DB:FD:43:E3:A1\<close> canonicalizes to \<open>34:db:fd:43:e3:a1\<close>.
\<close>

theorem normalizeBssid_idempotent:
  "(normalizeBssid s = Inr t \<longrightarrow> normalizeBssid t = Inr t)
   \<and> normalizeBssid (str ''34DBFD43E3A1'') = Inr (str ''34:db:fd:43:e3:a1'')
   \<and> normalizeBssid (str ''34-db-fd-43-e3-a1'') = Inr (str ''34:db:fd:43:e3:a1'')
   \<and> normalizeBssid (str ''34:DB:FD:43:E3:A1'') = Inr (str ''34:db:fd:43:e3:a1'')"
proof -
  have idem: "normalizeBssid t = Inr t" if s: "normalizeBssid s = Inr t"
  proof -
    let ?hex = "toLowerCase (filter isHexDigit s)"
    have h: "toLowerCase (filter isHexDigit t) = ?hex"
      by (simp add: normalizeBssid_hex [OF s] toLowerCase_idem)
    from s have l: "length ?hex = 12" and t: "join [0x3a] (normalizeBssid_loop ?hex 0 []) = t"
      by (simp_all add: normalizeBssid_def Let_def split: if_splits)
    have "normalizeBssid t =
            (if length ?hex \<noteq> 12 then Inl InvalidBssid
             else Inr (join [0x3a] (normalizeBssid_loop ?hex 0 [])))"
      unfolding normalizeBssid_def Let_def h ..
    also have "\<dots> = Inr t"
      by (simp only: l t) simp
    finally show ?thesis .
  qed
  have 1: "normalizeBssid (str ''34DBFD43E3A1'') = Inr (str ''34:db:fd:43:e3:a1'')"
    by (simp add: normalizeBssid_def str_def isHexDigit_def toLowerCase_def toLowerCase_unit_def
        normalizeBssid_loop.simps slice_def)
  have 2: "normalizeBssid (str ''34-db-fd-43-e3-a1'') = Inr (str ''34:db:fd:43:e3:a1'')"
    by (simp add: normalizeBssid_def str_def isHexDigit_def toLowerCase_def toLowerCase_unit_def
        normalizeBssid_loop.simps slice_def)
  have 3: "normalizeBssid (str ''34:DB:FD:43:E3:A1'') = Inr (str ''34:db:fd:43:e3:a1'')"
    by (simp add: normalizeBssid_def str_def isHexDigit_def toLowerCase_def toLowerCase_unit_def
        normalizeBssid_loop.simps slice_def)
  from idem have 0: "normalizeBssid s = Inr t \<longrightarrow> normalizeBssid t = Inr t"
    by (rule impI)
  from 0 1 2 3 show ?thesis by (intro conjI)
qed

theorem normalizeBssid_idempotent_witness:
  "normalizeBssid (str ''34DBFD43E3A1'') = Inr (str ''34:db:fd:43:e3:a1'')
   \<and> normalizeBssid (str ''34:db:fd:43:e3:a1'') = Inr (str ''34:db:fd:43:e3:a1'')"
proof -
  note t = normalizeBssid_idempotent [of "str ''34DBFD43E3A1''" "str ''34:db:fd:43:e3:a1''"]
  from t have a: "normalizeBssid (str ''34DBFD43E3A1'') = Inr (str ''34:db:fd:43:e3:a1'')"
    by (rule conjunct1 [OF conjunct2])
  from t have "normalizeBssid (str ''34DBFD43E3A1'') = Inr (str ''34:db:fd:43:e3:a1'')
      \<longrightarrow> normalizeBssid (str ''34:db:fd:43:e3:a1'') = Inr (str ''34:db:fd:43:e3:a1'')"
    by (rule conjunct1)
  then have b: "normalizeBssid (str ''34:db:fd:43:e3:a1'') = Inr (str ''34:db:fd:43:e3:a1'')"
    using a by (rule mp)
  from a b show ?thesis by (rule conjI)
qed

section \<open>Properties of the aggregation\<close>

lemma num_eq_Finite: "num_eq v (Finite x) \<longleftrightarrow> v = Finite x"
  by (cases v) auto

lemma formatResults_device_sentinel_free:
  assumes "\<forall>e \<in> set (fst state). \<not> (entry_latitude e = Finite (- 180) \<and> entry_longitude e = Finite (- 180))"
    and "\<forall>c \<in> set (snd state). \<not> (latitude c = Finite (- 180) \<and> longitude c = Finite (- 180))"
  shows "(\<forall>e \<in> set (fst (formatResults_device requestedMap dev state)).
            \<not> (entry_latitude e = Finite (- 180) \<and> entry_longitude e = Finite (- 180)))
       \<and> (\<forall>c \<in> set (snd (formatResults_device requestedMap dev state)).
            \<not> (latitude c = Finite (- 180) \<and> longitude c = Finite (- 180)))"
  using assms unfolding formatResults_device_def
  by (auto simp add: num_eq_Finite Let_def split: option.splits prod.splits if_splits)

lemma fold_formatResults_device_sentinel_free:
  assumes "\<forall>e \<in> set (fst state). \<not> (entry_latitude e = Finite (- 180) \<and> entry_longitude e = Finite (- 180))"
    and "\<forall>c \<in> set (snd state). \<not> (latitude c = Finite (- 180) \<and> longitude c = Finite (- 180))"
  shows "(\<forall>e \<in> set (fst (fold (formatResults_device requestedMap) devices state)).
            \<not> (entry_latitude e = Finite (- 180) \<and> entry_longitude e = Finite (- 180)))
       \<and> (\<forall>c \<in> set (snd (fold (formatResults_device requestedMap) devices state)).
            \<not> (latitude c = Finite (- 180) \<and> longitude c = Finite (- 180)))"
  using assms
proof (induction devices arbitrary: state)
  case Nil
  then show ?case by simp
next
  case (Cons dev devices)
  from formatResults_device_sentinel_free [OF Cons.prems, of requestedMap dev]
  show ?case
    by (simp only: fold_Cons comp_apply) (rule Cons.IH, simp_all)
qed

lemma results_subset:
  "set (results (formatResults devices requestedAccessPoints includeAll))
   \<subseteq> set (fst (fold (formatResults_device (requestedMap_of requestedAccessPoints Map.empty))
                      devices ([], [])))"
  by (auto simp add: formatResults_def Let_def split: prod.splits)

text \<open>
  C3: no entry of the results of \<open>formatResults\<close> has latitude -180 and longitude -180.
  A device whose scaled coordinates are both -180 leaves the aggregated results and the
  triangulation candidates as they were, and no triangulation candidate has latitude -180
  and longitude -180.
\<close>

theorem formatResults_sentinel:
  "(\<forall>e \<in> set (results (formatResults devices requestedAccessPoints includeAll)).
       \<not> (entry_latitude e = Finite (- 180) \<and> entry_longitude e = Finite (- 180)))
   \<and> (\<forall>c \<in> set (snd (fold (formatResults_device requestedMap) devices ([], []))).
       \<not> (latitude c = Finite (- 180) \<and> longitude c = Finite (- 180)))
   \<and> (location d = Some loc
        \<and> num_div (latitudeE8 loc) (Finite (10 ^ 8)) = Finite (- 180)
        \<and> num_div (longitudeE8 loc) (Finite (10 ^ 8)) = Finite (- 180)
       \<longrightarrow> formatResults_device requestedMap (Some d) state = state)"
proof -
  have free: "(\<forall>e \<in> set (fst (fold (formatResults_device m) devices ([], []))).
            \<not> (entry_latitude e = Finite (- 180) \<and> entry_longitude e = Finite (- 180)))
       \<and> (\<forall>c \<in> set (snd (fold (formatResults_device m) devices ([], []))).
            \<not> (latitude c = Finite (- 180) \<and> longitude c = Finite (- 180)))" for m
    by (rule fold_formatResults_device_sentinel_free) simp_all
  have 1: "\<forall>e \<in> set (results (formatResults devices requestedAccessPoints includeAll)).
       \<not> (entry_latitude e = Finite (- 180) \<and> entry_longitude e = Finite (- 180))"
    using free [of "requestedMap_of requestedAccessPoints Map.empty"]
      results_subset [of devices requestedAccessPoints includeAll]
    by blast
  have 2: "\<forall>c \<in> set (snd (fold (formatResults_device requestedMap) devices ([], []))).
       \<not> (latitude c = Finite (- 180) \<and> longitude c = Finite (- 180))"
    using free [of requestedMap] by blast
  have 3: "formatResults_device requestedMap (Some d) state = state"
    if "location d = Some loc
        \<and> num_div (latitudeE8 loc) (Finite (10 ^ 8)) = Finite (- 180)
        \<and> num_div (longitudeE8 loc) (Finite (10 ^ 8)) = Finite (- 180)"
    using that by (simp add: formatResults_device_def split: option.splits)
  from 3 have 4: "location d = Some loc
        \<and> num_div (latitudeE8 loc) (Finite (10 ^ 8)) = Finite (- 180)
        \<and> num_div (longitudeE8 loc) (Finite (10 ^ 8)) = Finite (- 180)
       \<longrightarrow> formatResults_device requestedMap (Some d) state = state"
    by (rule impI)
  from 1 2 4 show ?thesis by (intro conjI)
qed

theorem formatResults_sentinel_witness:
  "results (formatResults
      [Some \<lparr> bssid = Some (str ''34:db:fd:43:e3:a1''),
               location = Some \<lparr> latitudeE8 = Finite (- 18000000000),
                                  longitudeE8 = Finite (- 18000000000) \<rparr> \<rparr>,
       Some \<lparr> bssid = Some (str ''34:DB:FD:43:E3:A2''),
               location = Some \<lparr> latitudeE8 = Finite 4885661300,
                                  longitudeE8 = Finite 235222200 \<rparr> \<rparr>]
      [\<lparr> point_bssid = str ''34:db:fd:43:e3:a1'', point_signal = Some (Finite (- 60)) \<rparr>,
       \<lparr> point_bssid = str ''34:db:fd:43:e3:a2'', point_signal = Some (Finite (- 52)) \<rparr>]
      False)
   = [\<lparr> entry_bssid = str ''34:db:fd:43:e3:a2'',
         entry_latitude = Finite (48856613 / 1000000),
         entry_longitude = Finite (1176111 / 500000),
         entry_summary = Some \<lparr> signal = Finite (- 52), signalCount = 1,
                                 signalMin = Finite (- 52), signalMax = Finite (- 52) \<rparr> \<rparr>]
   \<and> \<not> (Finite (48856613 / 1000000) = Finite (- 180) \<and> Finite (1176111 / 500000) = Finite (- 180))
   \<and> snd (fold (formatResults_device
               [str ''34:db:fd:43:e3:a1'' \<mapsto> [Finite (- 60)], str ''34:db:fd:43:e3:a2'' \<mapsto> [Finite (- 52)]])
        [Some \<lparr> bssid = Some (str ''34:db:fd:43:e3:a1''),
               location = Some \<lparr> latitudeE8 = Finite (- 18000000000),
                                  longitudeE8 = Finite (- 18000000000) \<rparr> \<rparr>,
         Some \<lparr> bssid = Some (str ''34:DB:FD:43:E3:A2''),
               location = Some \<lparr> latitudeE8 = Finite 4885661300,
                                  longitudeE8 = Finite 235222200 \<rparr> \<rparr>] ([], []))
      = [\<lparr> latitude = Finite (48856613 / 1000000), longitude = Finite (1176111 / 500000),
           weight = Finite (10 powr - (26 / 5)) \<rparr>]
   \<and> formatResults_device
          [str ''34:db:fd:43:e3:a1'' \<mapsto> [Finite (- 60)], str ''34:db:fd:43:e3:a2'' \<mapsto> [Finite (- 52)]]
        (Some \<lparr> bssid = Some (str ''34:db:fd:43:e3:a1''),
               location = Some \<lparr> latitudeE8 = Finite (- 18000000000),
                                  longitudeE8 = Finite (- 18000000000) \<rparr> \<rparr>) ([], [])
      = ([], [])"
proof -
  let ?a1 = "str ''34:db:fd:43:e3:a1''"
  let ?a2 = "str ''34:db:fd:43:e3:a2''"
  let ?sloc = "\<lparr> latitudeE8 = Finite (- 18000000000), longitudeE8 = Finite (- 18000000000) \<rparr>"
  let ?sentinel = "\<lparr> bssid = Some ?a1, location = Some ?sloc \<rparr>"
  let ?paris = "\<lparr> bssid = Some (str ''34:DB:FD:43:E3:A2''),
               location = Some \<lparr> latitudeE8 = Finite 4885661300,
                                  longitudeE8 = Finite 235222200 \<rparr> \<rparr>"
  let ?aps = "[\<lparr> point_bssid = ?a1, point_signal = Some (Finite (- 60)) \<rparr>,
       \<lparr> point_bssid = ?a2, point_signal = Some (Finite (- 52)) \<rparr>]"
  let ?m = "[?a1 \<mapsto> [Finite (- 60)], ?a2 \<mapsto> [Finite (- 52)]]"
  let ?e = "\<lparr> entry_bssid = ?a2,
         entry_latitude = Finite (48856613 / 1000000),
         entry_longitude = Finite (1176111 / 500000),
         entry_summary = Some \<lparr> signal = Finite (- 52), signalCount = 1,
                                 signalMin = Finite (- 52), signalMax = Finite (- 52) \<rparr> \<rparr>"
  let ?c = "\<lparr> latitude = Finite (48856613 / 1000000), longitude = Finite (1176111 / 500000),
           weight = Finite (10 powr - (26 / 5)) \<rparr>"
  have ne: "?a1 \<noteq> ?a2" "?a2 \<noteq> ?a1" "?a1 \<noteq> []" "str ''34:DB:FD:43:E3:A2'' \<noteq> []"
    by (simp_all add: str_def)
  have n1: "tryNormalizeBssid ?a1 = Some ?a1"
    by (simp add: tryNormalizeBssid_def normalizeBssid_def str_def isHexDigit_def toLowerCase_def
        toLowerCase_unit_def normalizeBssid_loop.simps slice_def)
  have n2: "tryNormalizeBssid (str ''34:DB:FD:43:E3:A2'') = Some ?a2"
    by (simp add: tryNormalizeBssid_def normalizeBssid_def str_def isHexDigit_def toLowerCase_def
        toLowerCase_unit_def normalizeBssid_loop.simps slice_def)
  have m: "requestedMap_of ?aps Map.empty = ?m"
    by (simp add: Let_def ne)
  have m2: "?m ?a2 = Some [Finite (- 52)]"
    by (simp add: ne)
  have s: "summarizeSignals [Finite (- 52)] = Some \<lparr> signal = Finite (- 52), signalCount = 1,
                                 signalMin = Finite (- 52), signalMax = Finite (- 52) \<rparr>"
    by (simp add: summarizeSignals_def Math_min_def Math_max_def)
  have w: "weightFromSignal (Finite (- 52)) = Finite (10 powr - (26 / 5))"
    by (simp add: weightFromSignal_def Math_min_def Math_max_def)
  have d1: "formatResults_device mm (Some ?sentinel) state = state" for mm state
    by (simp add: formatResults_device_def ne n1)
  have d2: "formatResults_device ?m (Some ?paris) ([], []) = ([?e], [?c])"
    by (simp add: formatResults_device_def ne n2 m2 s w Let_def)
  have f: "fold (formatResults_device ?m) [Some ?sentinel, Some ?paris] ([], []) = ([?e], [?c])"
    by (simp only: fold_Cons fold_Nil comp_apply d1 d2 id_apply)
  have r: "results (formatResults [Some ?sentinel, Some ?paris] ?aps False) = [?e]"
    unfolding formatResults_def m Let_def f by (simp add: ne)
  note t = formatResults_sentinel [of "[Some ?sentinel, Some ?paris]" ?aps False ?m ?sentinel ?sloc "([], [])"]
  from t have "\<forall>e \<in> set (results (formatResults [Some ?sentinel, Some ?paris] ?aps False)).
       \<not> (entry_latitude e = Finite (- 180) \<and> entry_longitude e = Finite (- 180))"
    by (rule conjunct1)
  then have a: "\<not> (Finite (48856613 / 1000000) = Finite (- 180) \<and> Finite (1176111 / 500000) = Finite (- 180))"
    unfolding r by simp
  have h: "location ?sentinel = Some ?sloc
        \<and> num_div (latitudeE8 ?sloc) (Finite (10 ^ 8)) = Finite (- 180)
        \<and> num_div (longitudeE8 ?sloc) (Finite (10 ^ 8)) = Finite (- 180)"
    by simp
  from t have "location ?sentinel = Some ?sloc
        \<and> num_div (latitudeE8 ?sloc) (Finite (10 ^ 8)) = Finite (- 180)
        \<and> num_div (longitudeE8 ?sloc) (Finite (10 ^ 8)) = Finite (- 180)
      \<longrightarrow> formatResults_device ?m (Some ?sentinel) ([], []) = ([], [])"
    by (rule conjunct2 [THEN conjunct2])
  then have b: "formatResults_device ?m (Some ?sentinel) ([], []) = ([], [])"
    using h by (rule mp)
  from f have f2: "snd (fold (formatResults_device ?m) [Some ?sentinel, Some ?paris] ([], [])) = [?c]"
    by (simp only: snd_conv)
  from r a f2 b show ?thesis
    by (intro conjI)
qed

section \<open>Properties of the response decoding\<close>

subsection \<open>Every step moves forward\<close>

lemma readVarint_loop_Inr:
  "readVarint_loop buffer result shift position = Inr (v, p)
   \<Longrightarrow> position < p \<and> p \<le> length buffer"
proof (induction buffer result shift position rule: readVarint_loop.induct)
  case (1 buffer result shift position)
  show ?case
  proof (cases "position < length buffer")
    case True
    show ?thesis
    proof (cases "buffer ! position AND 0x80 = 0")
      case stop: True
      with True "1.prems" show ?thesis
        by (subst (asm) readVarint_loop.simps) (simp add: Let_def)
    next
      case more: False
      with True "1.prems" have
        "readVarint_loop buffer (result OR push_bit shift (uint (buffer ! position AND 0x7f)))
           (shift + 7) (position + 1) = Inr (v, p)"
        by (subst (asm) readVarint_loop.simps) (simp add: Let_def)
      with "1.IH" [OF True refl refl refl more] show ?thesis
        by simp
    qed
  next
    case False
    with "1.prems" show ?thesis
      by (subst (asm) readVarint_loop.simps) simp
  qed
qed

lemma readVarint_loop_Inl:
  "readVarint_loop buffer result shift position = Inl e \<Longrightarrow> e = TruncatedVarint"
proof (induction buffer result shift position rule: readVarint_loop.induct)
  case (1 buffer result shift position)
  show ?case
  proof (cases "position < length buffer")
    case True
    show ?thesis
    proof (cases "buffer ! position AND 0x80 = 0")
      case stop: True
      with True "1.prems" show ?thesis
        by (subst (asm) readVarint_loop.simps) (simp add: Let_def)
    next
      case more: False
      with True "1.prems" have
        "readVarint_loop buffer (result OR push_bit shift (uint (buffer ! position AND 0x7f)))
           (shift + 7) (position + 1) = Inl e"
        by (subst (asm) readVarint_loop.simps) (simp add: Let_def)
      with "1.IH" [OF True refl refl refl more] show ?thesis
        by simp
    qed
  next
    case False
    with "1.prems" show ?thesis
      by (subst (asm) readVarint_loop.simps) simp
  qed
qed

lemma readVarint_Inr: "readVarint buffer offset = Inr (v, p) \<Longrightarrow> offset < p \<and> p \<le> length buffer"
  unfolding readVarint_def by (rule readVarint_loop_Inr)

lemma readVarint_Inl: "readVarint buffer offset = Inl e \<Longrightarrow> e = TruncatedVarint"
  unfolding readVarint_def by (rule readVarint_loop_Inl)

lemma decodeInt64_Inr: "decodeInt64 buffer offset = Inr (v, p) \<Longrightarrow> offset < p \<and> p \<le> length buffer"
  by (auto simp add: decodeInt64_def split: sum.splits dest: readVarint_Inr)

lemma decodeInt64_Inl: "decodeInt64 buffer offset = Inl e \<Longrightarrow> e = TruncatedVarint"
  by (auto simp add: decodeInt64_def split: sum.splits dest: readVarint_Inl)

lemma skipField_Inr:
  assumes "skipField buffer offset wireType = Inr p"
    and "length buffer < 2 ^ 53" and "offset < 2 ^ 53"
  shows "enat offset < p"
proof -
  consider "wireType = 0" | "wireType = 1" | "wireType = 2" | "wireType = 5"
    | "wireType \<notin> {0, 1, 2, 5}"
    by auto
  then show ?thesis
  proof cases
    case 1
    with assms(1) obtain v nextOffset where
      "readVarint buffer offset = Inr (v, nextOffset)" "p = enat nextOffset"
      by (auto simp add: skipField_def split: sum.splits)
    with readVarint_Inr [of buffer offset v nextOffset] show ?thesis
      by simp
  next
    case 2
    with assms(1) have "p = offset_plus offset (enat 8)"
      by (simp add: skipField_def)
    with offset_plus_gt [OF assms(3), of 8] show ?thesis
      by simp
  next
    case 3
    with assms(1) obtain v nextOffset where
      r: "readVarint buffer offset = Inr (v, nextOffset)"
      and p: "p = offset_plus nextOffset (round_double (nat v))"
      by (auto simp add: skipField_def split: sum.splits)
    from readVarint_Inr [OF r] assms(2) have n: "offset < nextOffset" "nextOffset \<le> 2 ^ 53"
      by simp_all
    from n(1) have "enat offset < enat nextOffset"
      by simp
    also from n(2) have "enat nextOffset \<le> p"
      unfolding p by (rule offset_plus_ge)
    finally show ?thesis .
  next
    case 4
    with assms(1) have "p = offset_plus offset (enat 4)"
      by (simp add: skipField_def)
    with offset_plus_gt [OF assms(3), of 4] show ?thesis
      by simp
  next
    case 5
    with assms(1) show ?thesis
      by (simp add: skipField_def)
  qed
qed

lemma skipField_Inl: "skipField buffer offset wireType = Inl e \<Longrightarrow> is_decode_error e"
  by (auto simp add: skipField_def split: sum.splits if_splits dest: readVarint_Inl)

lemma subarray_length: "length (subarray buffer begin end) \<le> length buffer"
  by (simp add: subarray_def)

lemma delimited_end:
  assumes "readVarint buffer newOffset = Inr (len, lengthOffset)"
    and "offset < newOffset" and "length buffer < 2 ^ 53"
  shows "enat offset < offset_plus lengthOffset (round_double (nat len))"
proof -
  from readVarint_Inr [OF assms(1)] assms(2, 3)
  have n: "offset < lengthOffset" "lengthOffset \<le> 2 ^ 53"
    by simp_all
  from n(1) have "enat offset < enat lengthOffset"
    by simp
  also from n(2) have "enat lengthOffset \<le> offset_plus lengthOffset (round_double (nat len))"
    by (rule offset_plus_ge)
  finally show ?thesis .
qed

subsection \<open>The parsers end\<close>

lemma parseLocation_loop_end:
  "\<not> offset < enat (length buffer)
   \<Longrightarrow> parseLocation_loop buffer offset lat lon = Some (Inr (lat, lon))"
  by (subst parseLocation_loop.simps) simp

lemma parseLocation_loop_index:
  assumes bound: "length buffer < 2 ^ 53"
  shows "\<exists>r. parseLocation_loop buffer (enat offset) lat lon = Some r \<and> decode_outcome r"
proof (induction "length buffer - offset" arbitrary: offset lat lon rule: less_induct)
  case less
  have IH: "\<exists>r. parseLocation_loop buffer offset' la lo = Some r \<and> decode_outcome r"
    if "enat offset < offset'" "offset < length buffer" for offset' la lo
  proof (cases "offset' < enat (length buffer)")
    case True
    then obtain m where m: "offset' = enat m"
      by (cases offset') simp_all
    with that True show ?thesis
      unfolding m by (intro less.hyps) simp
  next
    case False
    then show ?thesis
      by (simp add: parseLocation_loop_end)
  qed
  show ?case
  proof (cases "offset < length buffer")
    case False
    then show ?thesis
      by (simp add: parseLocation_loop_end)
  next
    case inside: True
    with bound have small: "offset < 2 ^ 53"
      by simp
    show ?thesis
    proof (cases "readVarint buffer offset")
      case (Inl e)
      with inside readVarint_Inl [OF Inl] show ?thesis
        by (subst parseLocation_loop.simps) simp
    next
      case (Inr p)
      obtain tag newOffset where p: "p = (tag, newOffset)"
        by (cases p)
      from Inr p have rv: "readVarint buffer offset = Inr (tag, newOffset)"
        by simp
      from readVarint_Inr [OF rv] bound have n: "offset < newOffset" "newOffset < 2 ^ 53"
        by simp_all
      show ?thesis
      proof (cases "tag AND 0x07 = 0")
        case varint: True
        show ?thesis
        proof (cases "decodeInt64 buffer newOffset")
          case (Inl e)
          with inside rv varint decodeInt64_Inl [OF Inl] show ?thesis
            by (subst parseLocation_loop.simps) simp
        next
          case (Inr q)
          obtain v nextOffset where q: "q = (v, nextOffset)"
            by (cases q)
          from Inr q have dv: "decodeInt64 buffer newOffset = Inr (v, nextOffset)"
            by simp
          from decodeInt64_Inr [OF dv] n have "enat offset < enat nextOffset"
            by simp
          then have "\<exists>r. parseLocation_loop buffer (enat nextOffset) la lo = Some r \<and> decode_outcome r"
            for la lo
            using inside by (rule IH)
          with inside rv varint dv show ?thesis
            by (subst parseLocation_loop.simps) (simp add: Let_def)
        qed
      next
        case other: False
        show ?thesis
        proof (cases "skipField buffer newOffset (tag AND 0x07)")
          case (Inl e)
          with inside rv other skipField_Inl [OF Inl] show ?thesis
            by (subst parseLocation_loop.simps) (simp add: Let_def)
        next
          case (Inr offset')
          from n(1) have "enat offset < enat newOffset"
            by simp
          also have "enat newOffset < offset'"
            using Inr bound n(2) by (rule skipField_Inr)
          finally have "\<exists>r. parseLocation_loop buffer offset' lat lon = Some r \<and> decode_outcome r"
            using inside by (rule IH)
          with inside rv other Inr show ?thesis
            by (subst parseLocation_loop.simps) (simp add: Let_def)
        qed
      qed
    qed
  qed
qed

lemma parseLocation_total:
  assumes "length buffer < 2 ^ 53"
  shows "\<exists>r. parseLocation buffer = Some r \<and> decode_outcome r"
proof -
  from parseLocation_loop_index [OF assms, of 0 None None]
  obtain r where r: "parseLocation_loop buffer 0 None None = Some r" "decode_outcome r"
    by (auto simp add: zero_enat_def)
  then show ?thesis
    by (cases r) (auto simp add: parseLocation_def split: option.splits)
qed

lemma parseWifiDevice_loop_end:
  "\<not> offset < enat (length buffer)
   \<Longrightarrow> parseWifiDevice_loop decode buffer offset b l = Some (Inr (b, l))"
  by (subst parseWifiDevice_loop.simps) simp

lemma parseWifiDevice_loop_index:
  assumes bound: "length buffer < 2 ^ 53"
  shows "\<exists>r. parseWifiDevice_loop decode buffer (enat offset) b l = Some r \<and> decode_outcome r"
proof (induction "length buffer - offset" arbitrary: offset b l rule: less_induct)
  case less
  have IH: "\<exists>r. parseWifiDevice_loop decode buffer offset' b' l' = Some r \<and> decode_outcome r"
    if "enat offset < offset'" "offset < length buffer" for offset' b' l'
  proof (cases "offset' < enat (length buffer)")
    case True
    then obtain m where m: "offset' = enat m"
      by (cases offset') simp_all
    with that True show ?thesis
      unfolding m by (intro less.hyps) simp
  next
    case False
    then show ?thesis
      by (simp add: parseWifiDevice_loop_end)
  qed
  show ?case
  proof (cases "offset < length buffer")
    case False
    then show ?thesis
      by (simp add: parseWifiDevice_loop_end)
  next
    case inside: True
    show ?thesis
    proof (cases "readVarint buffer offset")
      case (Inl e)
      with inside readVarint_Inl [OF Inl] show ?thesis
        by (subst parseWifiDevice_loop.simps) simp
    next
      case (Inr p)
      obtain tag newOffset where p: "p = (tag, newOffset)"
        by (cases p)
      from Inr p have rv: "readVarint buffer offset = Inr (tag, newOffset)"
        by simp
      from readVarint_Inr [OF rv] bound have n: "offset < newOffset" "newOffset < 2 ^ 53"
        by simp_all
      show ?thesis
      proof (cases "(drop_bit 3 tag = 1 \<or> drop_bit 3 tag = 2) \<and> tag AND 0x07 = 2")
        case delimited: True
        show ?thesis
        proof (cases "readVarint buffer newOffset")
          case (Inl e)
          with inside rv delimited readVarint_Inl [OF Inl] show ?thesis
            by (subst parseWifiDevice_loop.simps) (auto simp add: Let_def)
        next
          case (Inr q)
          obtain len lengthOffset where q: "q = (len, lengthOffset)"
            by (cases q)
          from Inr q have lv: "readVarint buffer newOffset = Inr (len, lengthOffset)"
            by simp
          let ?end = "offset_plus lengthOffset (round_double (nat len))"
          have "enat offset < ?end"
            using lv n(1) bound by (rule delimited_end)
          then have next_ok: "\<exists>r. parseWifiDevice_loop decode buffer ?end b' l'
                              = Some r \<and> decode_outcome r" for b' l'
            using inside by (rule IH)
          show ?thesis
          proof (cases "drop_bit 3 tag = 1")
            case True
            with inside rv delimited lv next_ok show ?thesis
              by (subst parseWifiDevice_loop.simps) (simp add: Let_def)
          next
            case False
            with delimited have two: "drop_bit 3 tag = 2" "tag AND 0x07 = 2"
              by simp_all
            have "length (subarray buffer lengthOffset ?end) < 2 ^ 53"
              using subarray_length [of buffer lengthOffset ?end] bound by simp
            then obtain s where s: "parseLocation (subarray buffer lengthOffset ?end) = Some s"
              "decode_outcome s"
              using parseLocation_total by blast
            show ?thesis
            proof (cases s)
              case (Inl e)
              with inside rv two lv s show ?thesis
                by (subst parseWifiDevice_loop.simps) (simp add: Let_def)
            next
              case (Inr loc)
              with inside rv two lv s next_ok [of b loc] show ?thesis
                by (subst parseWifiDevice_loop.simps) (simp add: Let_def)
            qed
          qed
        qed
      next
        case other: False
        show ?thesis
        proof (cases "skipField buffer newOffset (tag AND 0x07)")
          case (Inl e)
          with inside rv other skipField_Inl [OF Inl] show ?thesis
            by (subst parseWifiDevice_loop.simps) (auto simp add: Let_def)
        next
          case (Inr offset')
          from n(1) have "enat offset < enat newOffset"
            by simp
          also have "enat newOffset < offset'"
            using Inr bound n(2) by (rule skipField_Inr)
          finally have "\<exists>r. parseWifiDevice_loop decode buffer offset' b l = Some r \<and> decode_outcome r"
            using inside by (rule IH)
          with inside rv other Inr show ?thesis
            by (subst parseWifiDevice_loop.simps) (auto simp add: Let_def)
        qed
      qed
    qed
  qed
qed

lemma parseWifiDevice_total:
  assumes "length buffer < 2 ^ 53"
  shows "\<exists>r. parseWifiDevice decode buffer = Some r \<and> decode_outcome r"
proof -
  from parseWifiDevice_loop_index [OF assms, of decode 0 None None]
  obtain r where r: "parseWifiDevice_loop decode buffer 0 None None = Some r" "decode_outcome r"
    by (auto simp add: zero_enat_def)
  then show ?thesis
    by (cases r) (auto simp add: parseWifiDevice_def split: option.splits)
qed

lemma parseAppleWLoc_loop_end:
  "\<not> offset < enat (length buffer)
   \<Longrightarrow> parseAppleWLoc_loop decode buffer offset devices = Some (Inr devices)"
  by (subst parseAppleWLoc_loop.simps) simp

lemma parseAppleWLoc_loop_index:
  assumes bound: "length buffer < 2 ^ 53"
  shows "\<exists>r. parseAppleWLoc_loop decode buffer (enat offset) devices = Some r \<and> decode_outcome r"
proof (induction "length buffer - offset" arbitrary: offset devices rule: less_induct)
  case less
  have IH: "\<exists>r. parseAppleWLoc_loop decode buffer offset' ds = Some r \<and> decode_outcome r"
    if "enat offset < offset'" "offset < length buffer" for offset' ds
  proof (cases "offset' < enat (length buffer)")
    case True
    then obtain m where m: "offset' = enat m"
      by (cases offset') simp_all
    with that True show ?thesis
      unfolding m by (intro less.hyps) simp
  next
    case False
    then show ?thesis
      by (simp add: parseAppleWLoc_loop_end)
  qed
  show ?case
  proof (cases "offset < length buffer")
    case False
    then show ?thesis
      by (simp add: parseAppleWLoc_loop_end)
  next
    case inside: True
    show ?thesis
    proof (cases "readVarint buffer offset")
      case (Inl e)
      with inside readVarint_Inl [OF Inl] show ?thesis
        by (subst parseAppleWLoc_loop.simps) simp
    next
      case (Inr p)
      obtain tag newOffset where p: "p = (tag, newOffset)"
        by (cases p)
      from Inr p have rv: "readVarint buffer offset = Inr (tag, newOffset)"
        by simp
      from readVarint_Inr [OF rv] bound have n: "offset < newOffset" "newOffset < 2 ^ 53"
        by simp_all
      show ?thesis
      proof (cases "drop_bit 3 tag = 2 \<and> tag AND 0x07 = 2")
        case delimited: True
        show ?thesis
        proof (cases "readVarint buffer newOffset")
          case (Inl e)
          with inside rv delimited readVarint_Inl [OF Inl] show ?thesis
            by (subst parseAppleWLoc_loop.simps) (simp add: Let_def)
        next
          case (Inr q)
          obtain len lengthOffset where q: "q = (len, lengthOffset)"
            by (cases q)
          from Inr q have lv: "readVarint buffer newOffset = Inr (len, lengthOffset)"
            by simp
          let ?end = "offset_plus lengthOffset (round_double (nat len))"
          have "enat offset < ?end"
            using lv n(1) bound by (rule delimited_end)
          then have next_ok: "\<exists>r. parseAppleWLoc_loop decode buffer ?end ds
                              = Some r \<and> decode_outcome r" for ds
            using inside by (rule IH)
          have "length (subarray buffer lengthOffset ?end) < 2 ^ 53"
            using subarray_length [of buffer lengthOffset ?end] bound by simp
          then obtain s where s: "parseWifiDevice decode (subarray buffer lengthOffset ?end) = Some s"
            "decode_outcome s"
            using parseWifiDevice_total by blast
          show ?thesis
          proof (cases s)
            case (Inl e)
            with inside rv delimited lv s show ?thesis
              by (subst parseAppleWLoc_loop.simps) (simp add: Let_def)
          next
            case (Inr d)
            with inside rv delimited lv s next_ok [of "devices @ [d]"] show ?thesis
              by (subst parseAppleWLoc_loop.simps) (simp add: Let_def)
          qed
        qed
      next
        case other: False
        show ?thesis
        proof (cases "skipField buffer newOffset (tag AND 0x07)")
          case (Inl e)
          with inside rv other skipField_Inl [OF Inl] show ?thesis
            by (subst parseAppleWLoc_loop.simps) (auto simp add: Let_def)
        next
          case (Inr offset')
          from n(1) have "enat offset < enat newOffset"
            by simp
          also have "enat newOffset < offset'"
            using Inr bound n(2) by (rule skipField_Inr)
          finally have "\<exists>r. parseAppleWLoc_loop decode buffer offset' devices = Some r \<and> decode_outcome r"
            using inside by (rule IH)
          with inside rv other Inr show ?thesis
            by (subst parseAppleWLoc_loop.simps) (auto simp add: Let_def)
        qed
      qed
    qed
  qed
qed

lemma parseAppleWLoc_total:
  assumes "length buffer < 2 ^ 53"
  shows "\<exists>r. parseAppleWLoc decode buffer = Some r \<and> decode_outcome r"
  using parseAppleWLoc_loop_index [OF assms, of decode 0 "[]"]
  by (simp add: parseAppleWLoc_def zero_enat_def)

text \<open>
  C10: the parsers end on every buffer, which as a \<open>Uint8Array\<close> has fewer than \<open>2^53\<close>
  bytes: each of \<open>parseAppleWLoc\<close>, \<open>parseWifiDevice\<close> and \<open>parseLocation\<close> returns,
  either normally or with the truncated-varint or the unsupported-wire-type error; a
  varint that \<open>readVarint\<close> reads ends after the offset it started at, and the offset
  that \<open>skipField\<close> returns for an offset in such a buffer is after the one it was given.
  The bound is that of the data model: the offsets are doubles, and from \<open>2^53\<close> on
  adding 4 or 8 to a double can return it unchanged.
\<close>

theorem parsers_terminate:
  "(length buffer < 2 ^ 53 \<longrightarrow>
      (\<exists>r. parseAppleWLoc decode buffer = Some r \<and> decode_outcome r)
      \<and> (\<exists>r. parseWifiDevice decode buffer = Some r \<and> decode_outcome r)
      \<and> (\<exists>r. parseLocation buffer = Some r \<and> decode_outcome r))
   \<and> (readVarint buffer offset = Inr (v, p) \<longrightarrow> offset < p)
   \<and> (length buffer < 2 ^ 53 \<and> offset < 2 ^ 53 \<and> skipField buffer offset wireType = Inr p'
        \<longrightarrow> enat offset < p')"
proof -
  have 1: "\<exists>r. parseAppleWLoc decode buffer = Some r \<and> decode_outcome r"
    if "length buffer < 2 ^ 53"
    using that by (rule parseAppleWLoc_total)
  have 2: "\<exists>r. parseWifiDevice decode buffer = Some r \<and> decode_outcome r"
    if "length buffer < 2 ^ 53"
    using that by (rule parseWifiDevice_total)
  have 3: "\<exists>r. parseLocation buffer = Some r \<and> decode_outcome r"
    if "length buffer < 2 ^ 53"
    using that by (rule parseLocation_total)
  have 4: "readVarint buffer offset = Inr (v, p) \<longrightarrow> offset < p"
    using readVarint_Inr [of buffer offset v p] by simp
  have 5: "length buffer < 2 ^ 53 \<and> offset < 2 ^ 53 \<and> skipField buffer offset wireType = Inr p'
        \<longrightarrow> enat offset < p'"
    using skipField_Inr [of buffer offset wireType p'] by simp
  from 1 2 3 have "length buffer < 2 ^ 53 \<longrightarrow>
      (\<exists>r. parseAppleWLoc decode buffer = Some r \<and> decode_outcome r)
      \<and> (\<exists>r. parseWifiDevice decode buffer = Some r \<and> decode_outcome r)
      \<and> (\<exists>r. parseLocation buffer = Some r \<and> decode_outcome r)"
    by simp
  with 4 5 show ?thesis by (intro conjI)
qed

theorem parsers_terminate_witness:
  "readVarint [0x96, 0x01] 0 = Inr (150, 2) \<and> (0::nat) < 2
   \<and> skipField [0x96, 0x01] 0 2 = Inr (enat 152) \<and> enat 0 < enat 152
   \<and> length [0x12 :: byte, 0x22, 0x0a, 0x11, 0x33, 0x34, 0x3a, 0x64, 0x62, 0x3a, 0x66, 0x64,
          0x3a, 0x34, 0x33, 0x3a, 0x65, 0x33, 0x3a, 0x61, 0x31, 0x12, 0x0b, 0x08, 0xf4, 0x8c,
          0xd5, 0x99, 0x12, 0x10, 0xb8, 0xe9, 0x94, 0x70, 0x18, 0x05, 0x18, 0x00, 0x25, 0x01,
          0x02, 0x03, 0x04] < 2 ^ 53
   \<and> (\<exists>r. parseAppleWLoc (\<lambda>b. map ucast b)
         [0x12, 0x22, 0x0a, 0x11, 0x33, 0x34, 0x3a, 0x64, 0x62, 0x3a, 0x66, 0x64, 0x3a, 0x34,
          0x33, 0x3a, 0x65, 0x33, 0x3a, 0x61, 0x31, 0x12, 0x0b, 0x08, 0xf4, 0x8c, 0xd5, 0x99,
          0x12, 0x10, 0xb8, 0xe9, 0x94, 0x70, 0x18, 0x05, 0x18, 0x00, 0x25, 0x01, 0x02, 0x03,
          0x04] = Some r \<and> decode_outcome r)
   \<and> parseAppleWLoc (\<lambda>b. map ucast b)
         [0x12, 0x22, 0x0a, 0x11, 0x33, 0x34, 0x3a, 0x64, 0x62, 0x3a, 0x66, 0x64, 0x3a, 0x34,
          0x33, 0x3a, 0x65, 0x33, 0x3a, 0x61, 0x31, 0x12, 0x0b, 0x08, 0xf4, 0x8c, 0xd5, 0x99,
          0x12, 0x10, 0xb8, 0xe9, 0x94, 0x70, 0x18, 0x05, 0x18, 0x00, 0x25, 0x01, 0x02, 0x03,
          0x04]
       = Some (Inr [\<lparr> bssid = Some (str ''34:db:fd:43:e3:a1''),
                       location = Some \<lparr> latitudeE8 = Finite 4885661300,
                                          longitudeE8 = Finite 235222200 \<rparr> \<rparr>])
   \<and> length (0x0a # replicate 147 (0x80 :: byte) @ [0x01]) < 2 ^ 53
   \<and> skipField (0x0a # replicate 147 0x80 @ [0x01]) 1 2 = Inr \<infinity>
   \<and> (\<exists>r. parseLocation (0x0a # replicate 147 0x80 @ [0x01]) = Some r \<and> decode_outcome r)
   \<and> parseLocation (0x0a # replicate 147 0x80 @ [0x01]) = Some (Inr None)"
proof -
  let ?huge = "0x0a # replicate 147 0x80 @ [0x01] :: byte list"
  let ?response =
    "[0x12, 0x22, 0x0a, 0x11, 0x33, 0x34, 0x3a, 0x64, 0x62, 0x3a, 0x66, 0x64, 0x3a, 0x34,
      0x33, 0x3a, 0x65, 0x33, 0x3a, 0x61, 0x31, 0x12, 0x0b, 0x08, 0xf4, 0x8c, 0xd5, 0x99,
      0x12, 0x10, 0xb8, 0xe9, 0x94, 0x70, 0x18, 0x05, 0x18, 0x00, 0x25, 0x01, 0x02, 0x03,
      0x04] :: byte list"
  have r: "readVarint [0x96, 0x01] 0 = Inr (150, 2)"
    by (simp add: readVarint_def readVarint_loop.simps)
  have s: "skipField [0x96, 0x01] 0 2 = Inr (enat 152)"
    by (simp add: skipField_def r offset_plus_def round_double_def)
  have small: "length [0x96 :: byte, 0x01] < 2 ^ 53" "(0::nat) < 2 ^ 53"
    by simp_all
  have len: "length ?response < 2 ^ 53"
    by simp
  note t = parsers_terminate [of "[0x96, 0x01]" "\<lambda>b. map ucast b" 0 150 2 2 "enat 152"]
  from t have "readVarint [0x96, 0x01] 0 = Inr (150, 2) \<longrightarrow> (0::nat) < 2"
    by (rule conjunct2 [THEN conjunct1])
  from this r have a: "(0::nat) < 2"
    by (rule mp)
  from t have "length [0x96 :: byte, 0x01] < 2 ^ 53 \<and> (0::nat) < 2 ^ 53
      \<and> skipField [0x96, 0x01] 0 2 = Inr (enat 152) \<longrightarrow> enat 0 < enat 152"
    by (rule conjunct2 [THEN conjunct2])
  moreover from small s have "length [0x96 :: byte, 0x01] < 2 ^ 53 \<and> (0::nat) < 2 ^ 53
      \<and> skipField [0x96, 0x01] 0 2 = Inr (enat 152)"
    by (intro conjI)
  ultimately have b: "enat 0 < enat 152"
    by (rule mp)
  from parsers_terminate [of ?response "\<lambda>b. map ucast b"]
  have "length ?response < 2 ^ 53 \<longrightarrow>
      (\<exists>r. parseAppleWLoc (\<lambda>b. map ucast b) ?response = Some r \<and> decode_outcome r)
      \<and> (\<exists>r. parseWifiDevice (\<lambda>b. map ucast b) ?response = Some r \<and> decode_outcome r)
      \<and> (\<exists>r. parseLocation ?response = Some r \<and> decode_outcome r)"
    by (rule conjunct1)
  from this len
  have "(\<exists>r. parseAppleWLoc (\<lambda>b. map ucast b) ?response = Some r \<and> decode_outcome r)
      \<and> (\<exists>r. parseWifiDevice (\<lambda>b. map ucast b) ?response = Some r \<and> decode_outcome r)
      \<and> (\<exists>r. parseLocation ?response = Some r \<and> decode_outcome r)"
    by (rule mp)
  then have c: "\<exists>r. parseAppleWLoc (\<lambda>b. map ucast b) ?response = Some r \<and> decode_outcome r"
    by (rule conjunct1)
  have d: "parseAppleWLoc (\<lambda>b. map ucast b) ?response
       = Some (Inr [\<lparr> bssid = Some (str ''34:db:fd:43:e3:a1''),
                       location = Some \<lparr> latitudeE8 = Finite 4885661300,
                                          longitudeE8 = Finite 235222200 \<rparr> \<rparr>])"
    by (simp add: parseAppleWLoc_def parseAppleWLoc_loop.simps parseWifiDevice_def
        parseWifiDevice_loop.simps parseLocation_def parseLocation_loop.simps
        readVarint_def readVarint_loop.simps decodeInt64_def skipField_def subarray_enat
        Number_of_BigInt_exact str_def Let_def the_enat_0 zero_enat_def offset_plus_exact
        round_double_exact)
  have hl: "length ?huge < 2 ^ 53"
    by simp
  have h0: "readVarint ?huge 0 = Inr (10, 1)" and h1: "readVarint ?huge 1 = Inr (2 ^ 1029, 149)"
    by (simp_all add: readVarint_def readVarint_loop.simps nth_append)
  have "round_double (nat (2 ^ 1029)) = \<infinity>"
    by (simp add: round_double_def compute_floorlog)
  with h1 have hs: "skipField ?huge 1 2 = Inr \<infinity>"
    by (simp add: skipField_def offset_plus_def)
  from parsers_terminate [of ?huge "\<lambda>b. map ucast b"]
  have "length ?huge < 2 ^ 53 \<longrightarrow>
      (\<exists>r. parseAppleWLoc (\<lambda>b. map ucast b) ?huge = Some r \<and> decode_outcome r)
      \<and> (\<exists>r. parseWifiDevice (\<lambda>b. map ucast b) ?huge = Some r \<and> decode_outcome r)
      \<and> (\<exists>r. parseLocation ?huge = Some r \<and> decode_outcome r)"
    by (rule conjunct1)
  from this hl
  have "(\<exists>r. parseAppleWLoc (\<lambda>b. map ucast b) ?huge = Some r \<and> decode_outcome r)
      \<and> (\<exists>r. parseWifiDevice (\<lambda>b. map ucast b) ?huge = Some r \<and> decode_outcome r)
      \<and> (\<exists>r. parseLocation ?huge = Some r \<and> decode_outcome r)"
    by (rule mp)
  then have he: "\<exists>r. parseLocation ?huge = Some r \<and> decode_outcome r"
    by (rule conjunct2 [THEN conjunct2])
  have "parseLocation_loop ?huge \<infinity> None None = Some (Inr (None, None))"
    by (rule parseLocation_loop_end) simp
  with h0 hs have "parseLocation_loop ?huge (enat 0) None None = Some (Inr (None, None))"
    by (subst parseLocation_loop.simps) (simp add: Let_def)
  then have hp: "parseLocation ?huge = Some (Inr None)"
    by (simp add: parseLocation_def zero_enat_def)
  from r a s b len c d hl hs he hp show ?thesis by (intro conjI)
qed

subsection \<open>Coordinates\<close>

lemma readVarint_loop_nonneg:
  "readVarint_loop buffer result shift position = Inr (v, p) \<Longrightarrow> 0 \<le> result \<Longrightarrow> 0 \<le> v"
proof (induction buffer result shift position rule: readVarint_loop.induct)
  case (1 buffer result shift position)
  let ?result' = "result OR push_bit shift (uint (buffer ! position AND 0x7f))"
  from "1.prems"(2) have nn: "0 \<le> ?result'"
    by simp
  show ?case
  proof (cases "position < length buffer")
    case True
    show ?thesis
    proof (cases "buffer ! position AND 0x80 = 0")
      case stop: True
      with True "1.prems"(1) have "v = ?result'"
        by (subst (asm) readVarint_loop.simps) (simp add: Let_def)
      with nn show ?thesis by simp
    next
      case more: False
      with True "1.prems"(1) have
        "readVarint_loop buffer ?result' (shift + 7) (position + 1) = Inr (v, p)"
        by (subst (asm) readVarint_loop.simps) (simp add: Let_def)
      with "1.IH" [OF True refl refl refl more] nn show ?thesis
        by simp
    qed
  next
    case False
    with "1.prems"(1) show ?thesis
      by (subst (asm) readVarint_loop.simps) simp
  qed
qed

lemma readVarint_nonneg: "readVarint buffer offset = Inr (v, p) \<Longrightarrow> 0 \<le> v"
  using readVarint_loop_nonneg [of buffer 0 0 offset v p] by (simp add: readVarint_def)

lemma sint_64_wrap:
  assumes "0 \<le> v" "v < 2 ^ 64"
  shows "sint (word_of_int v :: 64 word) = (if v > 0x7fffffffffffffff then v - 0x10000000000000000 else v)"
proof (cases "v > 0x7fffffffffffffff")
  case True
  have "(word_of_int v :: 64 word) = word_of_int (v - 2 ^ 64)"
    by (simp add: word_of_int_eq_iff take_bit_eq_mod)
  then have "sint (word_of_int v :: 64 word) = signed_take_bit 63 (v - 2 ^ 64)"
    by (simp only: sint_sbintrunc') simp
  also have "\<dots> = v - 2 ^ 64"
    using True assms by (intro signed_take_bit_int_eq_self) simp_all
  finally show ?thesis using True by simp
next
  case False
  have "sint (word_of_int v :: 64 word) = signed_take_bit 63 v"
    by (simp only: sint_sbintrunc') simp
  also have "\<dots> = v"
    using False assms by (intro signed_take_bit_int_eq_self) simp_all
  finally show ?thesis using False by simp
qed

lemma last_field_Nil: "last_field [] f = None"
  by (simp add: last_field_def)

lemma last_field_Cons:
  "last_field ((f', v) # fs) f
   = (case last_field fs f of Some w \<Rightarrow> Some w | None \<Rightarrow> if f' = f then Some v else None)"
  by (simp add: last_field_def map_add_def split: option.splits)

lemma decodeInt64_readVarint:
  "readVarint buffer offset = Inr (v, p)
   \<Longrightarrow> decodeInt64 buffer offset
       = Inr (if v > 0x7fffffffffffffff then v - 0x10000000000000000 else v, p)"
  by (simp add: decodeInt64_def)

lemma parseLocation_loop_fields:
  "location_fields buffer offset fs
   \<Longrightarrow> parseLocation_loop buffer offset lat lon
       = Some (Inr
           (case last_field fs 1 of
              Some v \<Rightarrow> Some (if v > 0x7fffffffffffffff then v - 0x10000000000000000 else v)
            | None \<Rightarrow> lat,
            case last_field fs 2 of
              Some v \<Rightarrow> Some (if v > 0x7fffffffffffffff then v - 0x10000000000000000 else v)
            | None \<Rightarrow> lon))"
proof (induction arbitrary: lat lon rule: location_fields.induct)
  case (fields_end offset)
  then show ?case
    by (simp add: parseLocation_loop_end last_field_Nil)
next
  case (fields_varint offset tag newOffset v nextOffset fs)
  note dv = decodeInt64_readVarint [OF fields_varint(4)]
  show ?case
  proof (cases "drop_bit 3 tag = 1")
    case True
    with fields_varint(1-3) dv fields_varint.IH [of "Some (if v > 0x7fffffffffffffff then v - 0x10000000000000000 else v)" lon]
    show ?thesis
      by (subst parseLocation_loop.simps)
        (simp add: Let_def last_field_Cons split: option.splits)
  next
    case not1: False
    show ?thesis
    proof (cases "drop_bit 3 tag = 2")
      case True
      with not1 fields_varint(1-3) dv fields_varint.IH [of lat "Some (if v > 0x7fffffffffffffff then v - 0x10000000000000000 else v)"]
      show ?thesis
        by (subst parseLocation_loop.simps)
          (simp add: Let_def last_field_Cons split: option.splits)
    next
      case False
      with not1 fields_varint(1-3) dv fields_varint.IH [of lat lon]
      show ?thesis
        by (subst parseLocation_loop.simps)
          (simp add: Let_def last_field_Cons split: option.splits)
    qed
  qed
next
  case (fields_skipped offset tag newOffset offset' fs)
  with fields_skipped.IH [of lat lon] show ?case
    by (subst parseLocation_loop.simps) (simp add: Let_def)
qed

lemma decodeInt64_Inr_readVarint:
  "decodeInt64 buffer offset = Inr (w, p) \<Longrightarrow> \<exists>v. readVarint buffer offset = Inr (v, p)"
  by (auto simp add: decodeInt64_def split: sum.splits)

lemma parseLocation_loop_has_fields:
  assumes "parseLocation_loop buffer offset lat lon = Some y"
  shows "\<forall>x. y = Inr x \<longrightarrow> (\<exists>fs. location_fields buffer offset fs)"
proof (rule parseLocation_loop.raw_induct
    [where P = "\<lambda>buffer offset lat lon y.
       \<forall>x. y = Inr x \<longrightarrow> (\<exists>fs. location_fields buffer offset fs)", OF _ assms],
    goal_cases)
  case (1 f buffer offset lat lon y)
  note IH = 1(1) and body = 1(2)
  show ?case
  proof (cases "offset < enat (length buffer)")
    case False
    then have "location_fields buffer offset []"
      by (rule fields_end)
    then show ?thesis by blast
  next
    case True
    then obtain n where n: "offset = enat n" "n < length buffer"
      by (cases offset) simp_all
    show ?thesis
    proof (cases "readVarint buffer n")
      case (Inl e)
      with body n show ?thesis
        by auto
    next
      case (Inr q)
      obtain tag newOffset where q: "q = (tag, newOffset)"
        by (cases q)
      from Inr q have rv: "readVarint buffer n = Inr (tag, newOffset)"
        by simp
      show ?thesis
      proof (cases "tag AND 0x07 = 0")
        case varint: True
        show ?thesis
        proof (cases "decodeInt64 buffer newOffset")
          case (Inl e)
          with body n rv varint show ?thesis
            by auto
        next
          case (Inr d)
          obtain w nextOffset where d: "d = (w, nextOffset)"
            by (cases d)
          from Inr d have dv: "decodeInt64 buffer newOffset = Inr (w, nextOffset)"
            by simp
          then obtain v where v: "readVarint buffer newOffset = Inr (v, nextOffset)"
            using decodeInt64_Inr_readVarint by blast
          from body n rv varint dv obtain la lo where "f buffer (enat nextOffset) la lo = Some y"
            by (auto simp add: Let_def split: if_splits)
          from IH [OF this] have "\<forall>x. y = Inr x \<longrightarrow> (\<exists>fs. location_fields buffer (enat nextOffset) fs)" .
          moreover have "location_fields buffer (enat n) ((drop_bit 3 tag, v) # fs)"
            if "location_fields buffer (enat nextOffset) fs" for fs
            using n(2) rv varint v that by (rule fields_varint)
          ultimately show ?thesis
            unfolding n(1) by blast
        qed
      next
        case other: False
        show ?thesis
        proof (cases "skipField buffer newOffset (tag AND 0x07)")
          case (Inl e)
          with body n rv other show ?thesis
            by (auto simp add: Let_def)
        next
          case (Inr offset')
          with body n rv other have "f buffer offset' lat lon = Some y"
            by (simp add: Let_def)
          from IH [OF this] have "\<forall>x. y = Inr x \<longrightarrow> (\<exists>fs. location_fields buffer offset' fs)" .
          moreover have "location_fields buffer (enat n) fs"
            if "location_fields buffer offset' fs" for fs
            using n(2) rv other Inr that by (rule fields_skipped)
          ultimately show ?thesis
            unfolding n(1) by blast
        qed
      qed
    qed
  qed
qed

lemma parseLocation_has_fields:
  assumes "parseLocation buffer = Some (Inr r)"
  shows "\<exists>fs. location_fields buffer 0 fs"
proof -
  from assms obtain x where "parseLocation_loop buffer 0 None None = Some (Inr x)"
    by (auto simp add: parseLocation_def split: option.splits sum.splits)
  from parseLocation_loop_has_fields [OF this] show ?thesis
    by simp
qed

text \<open>
  C2: each coordinate is read as an unsigned varint \<open>v\<close> and turned into \<open>v - 2^64\<close> when
  \<open>v\<close> is above \<open>2^63 - 1\<close> and left unchanged otherwise, which for \<open>v\<close> below \<open>2^64\<close> is its
  reading as a signed 64-bit integer. When the submessage is laid out as fields, with \<open>fs\<close>
  its varint fields, and \<open>v1\<close> and \<open>v2\<close> are the varints of the last field 1 and of the last
  field 2, \<open>parseLocation\<close> returns the location whose \<open>latitudeE8\<close> and \<open>longitudeE8\<close> are
  the Numbers of the signed readings of \<open>v1\<close> and \<open>v2\<close>; when there is no varint field 1 or
  no varint field 2, it returns no location. Whenever \<open>parseLocation\<close> returns without an
  error the submessage is laid out as fields. The Number of a signed reading is the
  integer itself up to \<open>2^53\<close> in absolute value.
\<close>

theorem parseLocation_coordinates:
  "(location_fields buffer 0 fs \<and> last_field fs 1 = Some v1 \<and> last_field fs 2 = Some v2 \<longrightarrow>
      parseLocation buffer
        = Some (Inr (Some
            \<lparr> latitudeE8 = Number_of_BigInt (if v1 > 2 ^ 63 - 1 then v1 - 2 ^ 64 else v1),
              longitudeE8 = Number_of_BigInt (if v2 > 2 ^ 63 - 1 then v2 - 2 ^ 64 else v2) \<rparr>)))
   \<and> (location_fields buffer 0 fs \<and> (last_field fs 1 = None \<or> last_field fs 2 = None) \<longrightarrow>
      parseLocation buffer = Some (Inr None))
   \<and> (parseLocation buffer = Some (Inr r) \<longrightarrow> (\<exists>fs. location_fields buffer 0 fs))
   \<and> (readVarint buffer offset = Inr (v, nextOffset) \<longrightarrow>
      decodeInt64 buffer offset
        = Inr (if v > 2 ^ 63 - 1 then v - 2 ^ 64 else v, nextOffset))
   \<and> (readVarint buffer offset = Inr (v, nextOffset) \<and> v < 2 ^ 64 \<longrightarrow>
      decodeInt64 buffer offset = Inr (sint (word_of_int v :: 64 word), nextOffset))
   \<and> (\<bar>b\<bar> \<le> 2 ^ 53 \<longrightarrow> Number_of_BigInt b = Finite (of_int b))"
proof -
  have loop: "parseLocation_loop buffer 0 None None
       = Some (Inr
           (case last_field fs 1 of
              Some v \<Rightarrow> Some (if v > 0x7fffffffffffffff then v - 0x10000000000000000 else v)
            | None \<Rightarrow> None,
            case last_field fs 2 of
              Some v \<Rightarrow> Some (if v > 0x7fffffffffffffff then v - 0x10000000000000000 else v)
            | None \<Rightarrow> None))"
    if "location_fields buffer 0 fs"
    using that by (rule parseLocation_loop_fields)
  have 1: "location_fields buffer 0 fs \<and> last_field fs 1 = Some v1 \<and> last_field fs 2 = Some v2 \<longrightarrow>
      parseLocation buffer
        = Some (Inr (Some
            \<lparr> latitudeE8 = Number_of_BigInt (if v1 > 2 ^ 63 - 1 then v1 - 2 ^ 64 else v1),
              longitudeE8 = Number_of_BigInt (if v2 > 2 ^ 63 - 1 then v2 - 2 ^ 64 else v2) \<rparr>))"
    using loop by (simp add: parseLocation_def)
  have 2: "location_fields buffer 0 fs \<and> (last_field fs 1 = None \<or> last_field fs 2 = None) \<longrightarrow>
      parseLocation buffer = Some (Inr None)"
    using loop by (auto simp add: parseLocation_def split: option.splits)
  have 3: "parseLocation buffer = Some (Inr r) \<longrightarrow> (\<exists>fs. location_fields buffer 0 fs)"
    using parseLocation_has_fields [of buffer r] by simp
  have 4: "readVarint buffer offset = Inr (v, nextOffset) \<longrightarrow>
      decodeInt64 buffer offset
        = Inr (if v > 2 ^ 63 - 1 then v - 2 ^ 64 else v, nextOffset)"
    by (simp add: decodeInt64_def)
  have 5: "readVarint buffer offset = Inr (v, nextOffset) \<and> v < 2 ^ 64 \<longrightarrow>
      decodeInt64 buffer offset = Inr (sint (word_of_int v :: 64 word), nextOffset)"
  proof
    assume a: "readVarint buffer offset = Inr (v, nextOffset) \<and> v < 2 ^ 64"
    then have "0 \<le> v" "v < 2 ^ 64"
      using readVarint_nonneg by blast+
    then have "sint (word_of_int v :: 64 word)
               = (if v > 0x7fffffffffffffff then v - 0x10000000000000000 else v)"
      by (rule sint_64_wrap)
    with a show "decodeInt64 buffer offset = Inr (sint (word_of_int v :: 64 word), nextOffset)"
      by (simp add: decodeInt64_def)
  qed
  have 6: "\<bar>b\<bar> \<le> 2 ^ 53 \<longrightarrow> Number_of_BigInt b = Finite (of_int b)"
    using Number_of_BigInt_exact [of b] by simp
  from 1 2 3 4 5 6 show ?thesis by (intro conjI)
qed

theorem parseLocation_coordinates_witness:
  "location_fields [0x08, 0xff, 0xff, 0xff, 0xff, 0xff, 0xff, 0xff, 0xff, 0xff, 0x01, 0x10, 0x01] 0
     [(1, 18446744073709551615), (2, 1)]
   \<and> last_field [(1, 18446744073709551615), (2, 1)] 1 = Some 18446744073709551615
   \<and> last_field [(1, 18446744073709551615), (2, 1)] 2 = Some 1
   \<and> parseLocation [0x08, 0xff, 0xff, 0xff, 0xff, 0xff, 0xff, 0xff, 0xff, 0xff, 0x01, 0x10, 0x01]
       = Some (Inr (Some \<lparr> latitudeE8 = Finite (- 1), longitudeE8 = Finite 1 \<rparr>))
   \<and> location_fields [0x08, 0x01] 0 [(1, 1)] \<and> last_field [(1, 1)] 2 = None
   \<and> parseLocation [0x08, 0x01] = Some (Inr None)
   \<and> location_fields [0x08, 0xff, 0xff, 0xff, 0xff, 0xff, 0xff, 0xff, 0xff, 0x7f, 0x10, 0x01] 0
       [(1, 9223372036854775807), (2, 1)]
   \<and> parseLocation [0x08, 0xff, 0xff, 0xff, 0xff, 0xff, 0xff, 0xff, 0xff, 0x7f, 0x10, 0x01]
       = Some (Inr (Some \<lparr> latitudeE8 = Finite 9223372036854775808, longitudeE8 = Finite 1 \<rparr>))
   \<and> readVarint [0xff, 0xff, 0xff, 0xff, 0xff, 0xff, 0xff, 0xff, 0xff, 0x01] 0
       = Inr (18446744073709551615, 10)
   \<and> decodeInt64 [0xff, 0xff, 0xff, 0xff, 0xff, 0xff, 0xff, 0xff, 0xff, 0x01] 0 = Inr (- 1, 10)"
proof -
  let ?neg = "[0x08, 0xff, 0xff, 0xff, 0xff, 0xff, 0xff, 0xff, 0xff, 0xff, 0x01, 0x10, 0x01] :: byte list"
  let ?lone = "[0x08, 0x01] :: byte list"
  let ?big = "[0x08, 0xff, 0xff, 0xff, 0xff, 0xff, 0xff, 0xff, 0xff, 0x7f, 0x10, 0x01] :: byte list"
  let ?ones = "[0xff, 0xff, 0xff, 0xff, 0xff, 0xff, 0xff, 0xff, 0xff, 0x01] :: byte list"
  have n0: "readVarint ?neg 0 = Inr (8, 1)" and n1: "readVarint ?neg 1 = Inr (18446744073709551615, 11)"
    and n11: "readVarint ?neg 11 = Inr (16, 12)" and n12: "readVarint ?neg 12 = Inr (1, 13)"
    by (simp_all add: readVarint_def readVarint_loop.simps)
  have "location_fields ?neg (enat 13) []"
    by (rule fields_end) simp
  from fields_varint [OF _ n11 _ n12 this] have "location_fields ?neg (enat 11) [(2, 1)]"
    by simp
  from fields_varint [OF _ n0 _ n1 this]
  have fn: "location_fields ?neg 0 [(1, 18446744073709551615), (2, 1)]"
    by (simp add: zero_enat_def)
  have ln: "last_field [(1, 18446744073709551615), (2, 1)] 1 = Some 18446744073709551615"
    "last_field [(1, 18446744073709551615), (2, 1)] 2 = Some 1"
    by (simp_all add: last_field_def)
  have l0: "readVarint ?lone 0 = Inr (8, 1)" and l1: "readVarint ?lone 1 = Inr (1, 2)"
    by (simp_all add: readVarint_def readVarint_loop.simps)
  have "location_fields ?lone (enat 2) []"
    by (rule fields_end) simp
  from fields_varint [OF _ l0 _ l1 this] have fl: "location_fields ?lone 0 [(1, 1)]"
    by (simp add: zero_enat_def)
  have ll: "last_field [(1, 1)] 2 = None"
    by (simp add: last_field_def)
  have b0: "readVarint ?big 0 = Inr (8, 1)" and b1: "readVarint ?big 1 = Inr (9223372036854775807, 10)"
    and b10: "readVarint ?big 10 = Inr (16, 11)" and b11: "readVarint ?big 11 = Inr (1, 12)"
    by (simp_all add: readVarint_def readVarint_loop.simps)
  have "location_fields ?big (enat 12) []"
    by (rule fields_end) simp
  from fields_varint [OF _ b10 _ b11 this] have "location_fields ?big (enat 10) [(2, 1)]"
    by simp
  from fields_varint [OF _ b0 _ b1 this]
  have fb: "location_fields ?big 0 [(1, 9223372036854775807), (2, 1)]"
    by (simp add: zero_enat_def)
  have lb: "last_field [(1, 9223372036854775807), (2, 1)] 1 = Some 9223372036854775807"
    "last_field [(1, 9223372036854775807), (2, 1)] 2 = Some 1"
    by (simp_all add: last_field_def)
  have one: "Number_of_BigInt 1 = Finite 1" and minus: "Number_of_BigInt (- 1) = Finite (- 1)"
    by (simp_all add: Number_of_BigInt_def round_double_def)
  have "round_double 9223372036854775807 = enat 9223372036854775808"
    by (simp add: round_double_def compute_floorlog)
  then have rounded: "Number_of_BigInt 9223372036854775807 = Finite 9223372036854775808"
    by (simp add: Number_of_BigInt_def)
  note tn = parseLocation_coordinates
    [of ?neg "[(1, 18446744073709551615), (2, 1)]" 18446744073709551615 1]
  from tn have "location_fields ?neg 0 [(1, 18446744073709551615), (2, 1)]
      \<and> last_field [(1, 18446744073709551615), (2, 1)] 1 = Some 18446744073709551615
      \<and> last_field [(1, 18446744073709551615), (2, 1)] 2 = Some 1 \<longrightarrow>
      parseLocation ?neg
        = Some (Inr (Some
            \<lparr> latitudeE8 = Number_of_BigInt
                (if 18446744073709551615 > (2::int) ^ 63 - 1 then 18446744073709551615 - 2 ^ 64
                 else 18446744073709551615),
              longitudeE8 = Number_of_BigInt (if 1 > (2::int) ^ 63 - 1 then 1 - 2 ^ 64 else 1) \<rparr>))"
    by (rule conjunct1)
  moreover from fn ln have "location_fields ?neg 0 [(1, 18446744073709551615), (2, 1)]
      \<and> last_field [(1, 18446744073709551615), (2, 1)] 1 = Some 18446744073709551615
      \<and> last_field [(1, 18446744073709551615), (2, 1)] 2 = Some 1"
    by (intro conjI)
  ultimately have "parseLocation ?neg
        = Some (Inr (Some
            \<lparr> latitudeE8 = Number_of_BigInt
                (if 18446744073709551615 > (2::int) ^ 63 - 1 then 18446744073709551615 - 2 ^ 64
                 else 18446744073709551615),
              longitudeE8 = Number_of_BigInt (if 1 > (2::int) ^ 63 - 1 then 1 - 2 ^ 64 else 1) \<rparr>))"
    by (rule mp)
  then have pn: "parseLocation ?neg
       = Some (Inr (Some \<lparr> latitudeE8 = Finite (- 1), longitudeE8 = Finite 1 \<rparr>))"
    by (simp add: one minus)
  note tl = parseLocation_coordinates [of ?lone "[(1, 1)]"]
  from tl have "location_fields ?lone 0 [(1, 1)]
      \<and> (last_field [(1, 1)] 1 = None \<or> last_field [(1, 1)] 2 = None) \<longrightarrow>
      parseLocation ?lone = Some (Inr None)"
    by (rule conjunct2 [THEN conjunct1])
  moreover from fl ll have "location_fields ?lone 0 [(1, 1)]
      \<and> (last_field [(1, 1)] 1 = None \<or> last_field [(1, 1)] 2 = None)"
    by simp
  ultimately have pl: "parseLocation ?lone = Some (Inr None)"
    by (rule mp)
  note tb = parseLocation_coordinates
    [of ?big "[(1, 9223372036854775807), (2, 1)]" 9223372036854775807 1]
  from tb have "location_fields ?big 0 [(1, 9223372036854775807), (2, 1)]
      \<and> last_field [(1, 9223372036854775807), (2, 1)] 1 = Some 9223372036854775807
      \<and> last_field [(1, 9223372036854775807), (2, 1)] 2 = Some 1 \<longrightarrow>
      parseLocation ?big
        = Some (Inr (Some
            \<lparr> latitudeE8 = Number_of_BigInt
                (if 9223372036854775807 > (2::int) ^ 63 - 1 then 9223372036854775807 - 2 ^ 64
                 else 9223372036854775807),
              longitudeE8 = Number_of_BigInt (if 1 > (2::int) ^ 63 - 1 then 1 - 2 ^ 64 else 1) \<rparr>))"
    by (rule conjunct1)
  moreover from fb lb have "location_fields ?big 0 [(1, 9223372036854775807), (2, 1)]
      \<and> last_field [(1, 9223372036854775807), (2, 1)] 1 = Some 9223372036854775807
      \<and> last_field [(1, 9223372036854775807), (2, 1)] 2 = Some 1"
    by (intro conjI)
  ultimately have "parseLocation ?big
        = Some (Inr (Some
            \<lparr> latitudeE8 = Number_of_BigInt
                (if 9223372036854775807 > (2::int) ^ 63 - 1 then 9223372036854775807 - 2 ^ 64
                 else 9223372036854775807),
              longitudeE8 = Number_of_BigInt (if 1 > (2::int) ^ 63 - 1 then 1 - 2 ^ 64 else 1) \<rparr>))"
    by (rule mp)
  then have pb: "parseLocation ?big
       = Some (Inr (Some \<lparr> latitudeE8 = Finite 9223372036854775808, longitudeE8 = Finite 1 \<rparr>))"
    by (simp add: one rounded)
  have r: "readVarint ?ones 0 = Inr (18446744073709551615, 10)"
    by (simp add: readVarint_def readVarint_loop.simps)
  note td = parseLocation_coordinates [of ?ones _ _ _ _ 0 18446744073709551615 10]
  from td have "readVarint ?ones 0 = Inr (18446744073709551615, 10) \<longrightarrow>
      decodeInt64 ?ones 0
        = Inr (if 18446744073709551615 > (2::int) ^ 63 - 1 then 18446744073709551615 - 2 ^ 64
               else 18446744073709551615, 10)"
    by (rule conjunct2 [THEN conjunct2, THEN conjunct2, THEN conjunct1])
  from this r have "decodeInt64 ?ones 0
        = Inr (if 18446744073709551615 > (2::int) ^ 63 - 1 then 18446744073709551615 - 2 ^ 64
               else 18446744073709551615, 10)"
    by (rule mp)
  then have d: "decodeInt64 ?ones 0 = Inr (- 1, 10)"
    by simp
  from fn ln pn fl ll pl fb pb r d show ?thesis by (intro conjI)
qed

end
